theory Spec2Isabelle
  imports Main "HOL-Library.Word"
begin

section \<open>Strings of the source language\<close>

text \<open>
  The module \<^verbatim>\<open>util.js\<close> works on JavaScript strings, which are sequences of 16-bit
  code units. A string is a list of such units; \<open>js\<close> turns an ASCII literal into one,
  so that \<open>js ''ab''\<close> is the JavaScript string \<^verbatim>\<open>"ab"\<close>.
\<close>

type_synonym jschar = "16 word"
type_synonym jsstring = "jschar list"

definition js :: "string \<Rightarrow> jsstring" where
  "js = map of_char"

definition dquote :: jschar where "dquote = 0x22"
definition squote :: jschar where "squote = 0x27"
definition space :: jschar where "space = 0x20"
definition tab :: jschar where "tab = 0x09"

definition crlf :: jsstring where
  "crlf = [0x0D, 0x0A]"

text \<open>
  \<^verbatim>\<open>String.prototype.trim\<close> removes the code units of the ECMAScript productions
  WhiteSpace and LineTerminator from both ends: TAB, LF, VT, FF, CR, SP, NBSP, U+1680,
  U+2000 to U+200A, U+2028, U+2029, U+202F, U+205F, U+3000 and U+FEFF. The proofs below
  use of this set only that space and tab belong to it and the two quote chars do not.
\<close>

definition is_trim_ws :: "jschar \<Rightarrow> bool" where
  "is_trim_ws c \<longleftrightarrow>
     c = 0x09 \<or> c = 0x0A \<or> c = 0x0B \<or> c = 0x0C \<or> c = 0x0D \<or> c = 0x20 \<or> c = 0xA0 \<or>
     c = 0x1680 \<or> (0x2000 \<le> c \<and> c \<le> 0x200A) \<or> c = 0x2028 \<or> c = 0x2029 \<or>
     c = 0x202F \<or> c = 0x205F \<or> c = 0x3000 \<or> c = 0xFEFF"

definition trim :: "jsstring \<Rightarrow> jsstring" where
  "trim s = rev (dropWhile is_trim_ws (rev (dropWhile is_trim_ws s)))"

text \<open>
  \<^verbatim>\<open>s.substring(a, b)\<close>: both indices are clamped to the length of the string and
  swapped when the first exceeds the second.
\<close>

definition substring :: "jsstring \<Rightarrow> nat \<Rightarrow> nat \<Rightarrow> jsstring" where
  "substring s a b =
     (let a' = min a (length s); b' = min b (length s);
          lo = min a' b'; hi = max a' b'
      in take (hi - lo) (drop lo s))"

datatype error =
    UnmatchedQuote
  | MismatchedQuote
  | FileOpenError
  | FileReadError
  | BadDescriptor
  | TypeError

section \<open>unquote\<close>

text \<open>
  \<^verbatim>\<open>
  obj.unquote = function(s){
      s = s.trim();
      if (s.length >= 1)
      {
          var start = s.charAt(0);
          var end = s.length >= 2 ? s.charAt(s.length-1) : 0;
          var isQuote =
             (start === '"' || start === '\'' ||
              end   === '"' || end   === '\'');
          if (isQuote)
          {
              if (start === end)
                  return s.substring(1, s.length-1);
              throw {message: "mismatched quote chars"};
          }
      }
      return s;
  };
  \<close>
  \<open>start\<close> is always a one-unit string; \<open>end\<close> is a one-unit string or the number 0,
  which is \<open>None\<close> here: the strict equality \<^verbatim>\<open>===\<close> of a string with the number 0 is
  false, as \<open>Some c = None\<close> is.
\<close>

definition unquote :: "jsstring \<Rightarrow> error + jsstring" where
  "unquote s0 =
     (let s = trim s0 in
      if length s \<ge> 1 then
        (let start = Some (s ! 0);
             end = (if length s \<ge> 2 then Some (s ! (length s - 1)) else None);
             isQuote = (start = Some dquote \<or> start = Some squote \<or>
                        end = Some dquote \<or> end = Some squote)
         in if isQuote then
              (if start = end then Inr (substring s 1 (length s - 1))
               else Inl MismatchedQuote)
            else Inr s)
      else Inr s)"

section \<open>parseArgs\<close>

text \<open>
  \<^verbatim>\<open>
  function skipWhitespace(s, startIdx)
  {
      for (var i = startIdx; i < s.length; i++)
      {
          var cur = s.charAt(i);
          if (cur !== ' ' && cur !== "\t")
              return i;
      }
      return -1;
  }
  \<close>
\<close>

function skipWhitespace :: "jsstring \<Rightarrow> nat \<Rightarrow> int" where
  "skipWhitespace s i =
     (if i < length s then
        (let cur = s ! i in
         if cur \<noteq> space \<and> cur \<noteq> tab then int i
         else skipWhitespace s (Suc i))
      else - 1)"
  by pat_completeness auto
termination
  by (relation "measure (\<lambda>(s, i). length s - i)") auto

declare skipWhitespace.simps [simp del]

lemma skipWhitespace_bounds:
  "0 \<le> skipWhitespace s i \<Longrightarrow> i \<le> nat (skipWhitespace s i) \<and> nat (skipWhitespace s i) < length s"
proof (induction s i rule: skipWhitespace.induct)
  case (1 s i)
  show ?case
  proof (cases "i < length s")
    case False
    with "1.prems" show ?thesis
      by (simp add: skipWhitespace.simps [of s i])
  next
    case True
    show ?thesis
    proof (cases "s ! i \<noteq> space \<and> s ! i \<noteq> tab")
      case stop: True
      with True show ?thesis
        by (simp add: skipWhitespace.simps [of s i])
    next
      case go: False
      with True have eq: "skipWhitespace s i = skipWhitespace s (Suc i)"
        by (auto simp add: skipWhitespace.simps [of s i])
      with "1.prems" "1.IH" [OF True refl] go show ?thesis
        by auto
    qed
  qed
qed

lemma skipWhitespace_decr:
  "\<not> skipWhitespace s (Suc i) < 0 \<Longrightarrow> length s - nat (skipWhitespace s (Suc i)) < length s - i"
  using skipWhitespace_bounds [of s "Suc i"] by linarith

text \<open>
  The main loop of \<^verbatim>\<open>parseArgs\<close> (the \<^verbatim>\<open>for (; i < s.length; )\<close> statement and the
  code after it), on the loop variables \<open>i\<close>, \<open>startQuote\<close>, \<open>args\<close> and \<open>curToken\<close>.
  \<open>startQuote\<close> is \<^verbatim>\<open>null\<close> (\<open>None\<close>) or a one-unit string, which is truthy.
\<close>

function parseArgs_loop ::
  "jsstring \<Rightarrow> nat \<Rightarrow> jschar option \<Rightarrow> jsstring list \<Rightarrow> jsstring \<Rightarrow> error + jsstring list"
where
  "parseArgs_loop s i startQuote args curToken =
     (if i < length s then
        (let cur = s ! i in
         case startQuote of
           Some q \<Rightarrow>
             if cur = q then
               (let args' = args @ [trim curToken];
                    j = skipWhitespace s (i + 1)
                in if j < 0 then Inr args'
                   else parseArgs_loop s (nat j) None args' [])
             else parseArgs_loop s (i + 1) startQuote args (curToken @ [cur])
         | None \<Rightarrow>
             if cur = dquote \<or> cur = squote then
               (let curToken' = trim curToken;
                    args' = (if curToken' \<noteq> [] then args @ [curToken'] else args);
                    curToken'' = (if curToken' \<noteq> [] then [] else curToken')
                in parseArgs_loop s (i + 1) (Some cur) args' curToken'')
             else if cur = space \<or> cur = tab then
               (let args' = args @ [trim curToken];
                    j = skipWhitespace s (i + 1)
                in if j < 0 then Inr args'
                   else parseArgs_loop s (nat j) None args' [])
             else parseArgs_loop s (i + 1) None args (curToken @ [cur]))
      else if startQuote \<noteq> None then Inl UnmatchedQuote
      else Inr (if curToken \<noteq> [] then args @ [trim curToken] else args))"
  by pat_completeness auto
termination
  by (relation "measure (\<lambda>(s, i, q, args, cur). length s - i)")
     (auto simp: skipWhitespace_decr)

declare parseArgs_loop.simps [simp del]

text \<open>
  \<^verbatim>\<open>
  obj.parseArgs = function(s){
      var startQuote = null;
      var args = [];
      var curToken = '';
      var i = skipWhitespace(s, 0);
      if (i < 0) return args;
      for (; i < s.length; ) { ... }
      ...
  };
  \<close>
\<close>

definition parseArgs :: "jsstring \<Rightarrow> error + jsstring list" where
  "parseArgs s =
     (let i = skipWhitespace s 0 in
      if i < 0 then Inr [] else parseArgs_loop s (nat i) None [] [])"

section \<open>writeFormData\<close>

text \<open>
  \<^verbatim>\<open>writeFormData(httpReq, data)\<close> writes to an HTTP request object and reads files through
  the \<^verbatim>\<open>fs\<close> module into a \<^verbatim>\<open>Buffer\<close>. The request and the file system are collaborators
  outside the module; they are modelled by the interface the function uses.

  A \<^verbatim>\<open>Buffer\<close> is an object that refers to a block of memory: \<open>BufRef a off len\<close> is the
  Buffer on the block at address \<open>a\<close> that starts at offset \<open>off\<close> of the block and is \<open>len\<close>
  bytes long. \<^verbatim>\<open>buf.slice(0, n)\<close> is a new Buffer on the same block, not a copy.

  The request is the one that \<^verbatim>\<open>createReq\<close> returns (\<^verbatim>\<open>http.request\<close>). It has no connection
  while the function runs, so it queues, in order, what it is given: each
  \<^verbatim>\<open>write(chunk, encoding)\<close> and the final \<^verbatim>\<open>end(chunk, encoding)\<close>, which finalizes the
  request. A string chunk is queued with its encoding; a Buffer chunk is queued as the
  object itself, that is by reference. The queue is sent after the function has returned,
  so the bytes sent for a Buffer chunk are those that its block of memory holds then
  (\<open>wire\<close> below).
\<close>

type_synonym byte = "8 word"

datatype encoding = Ascii | Utf8

datatype chunk = Text jsstring encoding | BufRef nat nat nat

datatype event = Write chunk | End chunk

record request =
  headers :: "jsstring \<rightharpoonup> jsstring"
  events :: "event list"

definition httpReq_setHeader :: "request \<Rightarrow> jsstring \<Rightarrow> jsstring \<Rightarrow> request" where
  "httpReq_setHeader r name v = r\<lparr>headers := (headers r)(name \<mapsto> v)\<rparr>"

definition httpReq_write :: "request \<Rightarrow> chunk \<Rightarrow> request" where
  "httpReq_write r c = r\<lparr>events := events r @ [Write c]\<rparr>"

definition httpReq_end :: "request \<Rightarrow> chunk \<Rightarrow> request" where
  "httpReq_end r c = r\<lparr>events := events r @ [End c]\<rparr>"

text \<open>
  The state of the platform that the function reads and changes: the files by path, the
  table of open descriptors with their read positions, the next descriptor to hand out, a
  schedule for the coming calls of \<^verbatim>\<open>readSync\<close>, the memory blocks of the Buffers by address
  and the next address to allocate. A call of \<^verbatim>\<open>readSync\<close> consumes one entry of the
  schedule: \<open>ReadFails\<close> makes the read throw, \<open>ReadAtMost k\<close> makes it deliver at most
  \<open>k + 1\<close> bytes (a short read); when the schedule is exhausted a read delivers all it is
  asked for. A read returns 0 bytes only at the end of the file.
\<close>

datatype read_outcome = ReadFails | ReadAtMost nat

record open_file =
  content :: "byte list"
  position :: nat

record world =
  files :: "jsstring \<rightharpoonup> byte list"
  handles :: "nat \<rightharpoonup> open_file"
  next_fd :: nat
  schedule :: "read_outcome list"
  memory :: "nat \<rightharpoonup> byte list"
  next_addr :: nat

definition openSync :: "world \<Rightarrow> jsstring \<Rightarrow> error + (nat \<times> world)" where
  "openSync st path =
     (case files st path of
        None \<Rightarrow> Inl FileOpenError
      | Some d \<Rightarrow>
          Inr (next_fd st,
               st\<lparr>handles := (handles st)(next_fd st \<mapsto> \<lparr>content = d, position = 0\<rparr>),
                  next_fd := Suc (next_fd st)\<rparr>))"

text \<open>
  \<^verbatim>\<open>fs.readSync(fd, buf, offset, length, null)\<close> reads from the current position of the
  descriptor into the memory block of \<open>buf\<close> (given by its address) at \<open>offset\<close>, advances the
  position and returns the number of bytes read. The block is changed in place: whoever
  holds a Buffer on it sees the new bytes.
\<close>

definition readSync :: "world \<Rightarrow> nat \<Rightarrow> nat \<Rightarrow> nat \<Rightarrow> nat \<Rightarrow> error + (nat \<times> world)" where
  "readSync st fd buf offset len =
     (case handles st fd of
        None \<Rightarrow> Inl BadDescriptor
      | Some h \<Rightarrow>
          (case memory st buf of
             None \<Rightarrow> Inl TypeError
           | Some block \<Rightarrow>
               (case schedule st of
                  ReadFails # _ \<Rightarrow> Inl FileReadError
                | _ \<Rightarrow>
                    (let limit = (case schedule st of ReadAtMost k # _ \<Rightarrow> Suc k | _ \<Rightarrow> len);
                         avail = drop (position h) (content h);
                         n = min (min len limit) (length avail);
                         bytes = take n avail
                     in Inr (n,
                          st\<lparr>handles := (handles st)(fd \<mapsto> h\<lparr>position := position h + n\<rparr>),
                             schedule := tl (schedule st),
                             memory := (memory st)
                               (buf \<mapsto> take offset block @ bytes @ drop (offset + n) block)\<rparr>)))))"

definition closeSync :: "world \<Rightarrow> nat \<Rightarrow> error + world" where
  "closeSync st fd =
     (case handles st fd of
        None \<Rightarrow> Inl BadDescriptor
      | Some _ \<Rightarrow> Inr (st\<lparr>handles := (handles st)(fd := None)\<rparr>))"

text \<open>
  \<^verbatim>\<open>new Buffer(n)\<close> allocates a block of \<open>n\<close> bytes that are not initialised: their contents
  are whatever the allocator's memory \<open>mem\<close> holds. The result is the address of the block.
  \<^verbatim>\<open>buf.toString('hex')\<close> writes each byte as two lowercase hexadecimal digits.
\<close>

definition new_Buffer :: "world \<Rightarrow> byte list \<Rightarrow> nat \<Rightarrow> nat \<times> world" where
  "new_Buffer st mem n =
     (next_addr st,
      st\<lparr>memory := (memory st)(next_addr st \<mapsto> take n mem @ replicate (n - length mem) 0),
         next_addr := Suc (next_addr st)\<rparr>)"

definition hexdigit :: "nat \<Rightarrow> jschar" where
  "hexdigit n = (if n < 10 then of_nat (48 + n) else of_nat (87 + n))"

definition toString_hex :: "byte list \<Rightarrow> jsstring" where
  "toString_hex bs = concat (map (\<lambda>b. [hexdigit (unat b div 16), hexdigit (unat b mod 16)]) bs)"

text \<open>
  The values of the field mapping: \<open>Scalar s\<close> is a value that is not an object, with string
  form \<open>s\<close>; \<open>Object p s\<close> is an object with string form \<open>s\<close> whose \<^verbatim>\<open>filePath\<close> property is
  the string \<open>p\<close>, or is absent when \<open>p\<close> is \<open>None\<close>; \<open>Null\<close> is \<^verbatim>\<open>null\<close>. The mapping
  itself is the list of its entries in the order in which \<^verbatim>\<open>for (var key in data)\<close>
  enumerates them.
\<close>

datatype field_value = Scalar jsstring | Object "jsstring option" jsstring | Null

text \<open>
  \<^verbatim>\<open>
  var bufCap = 1<<16;
  var buf = new Buffer(bufCap);
  ...
      var fd = fs.openSync(val.filePath, 'r');
      var bufSize = 0;
      while(true)
      {
          // read til buffer is full
          while (bufSize < bufCap)
          {
              var nread = fs.readSync(fd, buf, bufSize, bufCap-bufSize, null);
              if (nread == 0) break;
              bufSize += nread;
          }
          if (bufSize === bufCap)
          {
              bufSize = 0;
              httpReq.write(buf);
              continue;
          }
          httpReq.write(buf.slice(0, bufSize));
          break;
      }
      fs.closeSync(fd);
  \<close>
  \<open>read_til_full\<close> is the inner loop and \<open>stream_file\<close> the outer one. Both return the
  error that was thrown, if any, with the state at that moment. \<open>buf\<close> is the address of the
  block of the one Buffer of \<open>bufCap\<close> bytes: \<^verbatim>\<open>httpReq.write(buf)\<close> hands over that Buffer,
  \<open>BufRef buf 0 bufCap\<close>, and \<^verbatim>\<open>httpReq.write(buf.slice(0, bufSize))\<close> the Buffer
  \<open>BufRef buf 0 bufSize\<close> on the same block.
\<close>

definition bufCap :: nat where
  "bufCap = push_bit 16 1"

function read_til_full :: "world \<Rightarrow> nat \<Rightarrow> nat \<Rightarrow> nat \<Rightarrow> error option \<times> world \<times> nat" where
  "read_til_full st fd buf bufSize =
     (if bufSize < bufCap then
        (case readSync st fd buf bufSize (bufCap - bufSize) of
           Inl e \<Rightarrow> (Some e, st, bufSize)
         | Inr (nread, st') \<Rightarrow>
             if nread = 0 then (None, st', bufSize)
             else read_til_full st' fd buf (bufSize + nread))
      else (None, st, bufSize))"
  by pat_completeness auto
termination
  by (relation "measure (\<lambda>(st, fd, buf, bufSize). bufCap - bufSize)") auto

declare read_til_full.simps [simp del]

text \<open>
  The bytes of an open file that are still to be read; the outer loop ends because each
  full buffer takes \<open>bufCap\<close> of them.
\<close>

definition remaining :: "world \<Rightarrow> nat \<Rightarrow> nat" where
  "remaining st fd =
     (case handles st fd of None \<Rightarrow> 0 | Some h \<Rightarrow> length (content h) - position h)"

lemma readSync_Inr:
  assumes "readSync st fd buf off len = Inr (n, st')"
  shows "\<exists>h block. handles st fd = Some h \<and> memory st buf = Some block \<and>
           n \<le> len \<and> n \<le> length (content h) - position h \<and>
           (n = 0 \<longrightarrow> len = 0 \<or> length (content h) \<le> position h) \<and>
           memory st' = (memory st)
             (buf \<mapsto> take off block @ take n (drop (position h) (content h)) @
                     drop (off + n) block) \<and>
           handles st' = (handles st)(fd \<mapsto> h\<lparr>position := position h + n\<rparr>) \<and>
           files st' = files st \<and> next_fd st' = next_fd st \<and> next_addr st' = next_addr st \<and>
           schedule st' = tl (schedule st)"
proof (cases "handles st fd")
  case None
  with assms show ?thesis by (simp add: readSync_def)
next
  case (Some h)
  show ?thesis
  proof (cases "memory st buf")
    case None
    with Some assms show ?thesis by (simp add: readSync_def)
  next
    case block: (Some block)
    show ?thesis
    proof (cases "schedule st")
      case Nil
      with Some block assms show ?thesis
        by (auto simp: readSync_def Let_def min_def split: if_splits)
    next
      case (Cons o1 os)
      show ?thesis
      proof (cases o1)
        case ReadFails
        with Some block Cons assms show ?thesis by (simp add: readSync_def)
      next
        case (ReadAtMost k)
        with Some block Cons assms show ?thesis
          by (auto simp: readSync_def Let_def min_def split: if_splits)
      qed
    qed
  qed
qed

lemma readSync_remaining:
  "readSync st fd buf off len = Inr (n, st') \<Longrightarrow> remaining st' fd + n = remaining st fd"
  by (drule readSync_Inr) (auto simp: remaining_def)

lemma read_til_full_remaining:
  "read_til_full st fd buf bufSize = (None, st', n) \<Longrightarrow>
     remaining st' fd + n = remaining st fd + bufSize"
proof (induction st fd buf bufSize rule: read_til_full.induct)
  case (1 st fd buf bufSize)
  show ?case
  proof (cases "bufSize < bufCap")
    case False
    with "1.prems" show ?thesis by (simp add: read_til_full.simps [of st fd buf bufSize])
  next
    case True
    show ?thesis
    proof (cases "readSync st fd buf bufSize (bufCap - bufSize)")
      case (Inl e)
      with True "1.prems" show ?thesis by (simp add: read_til_full.simps [of st fd buf bufSize])
    next
      case (Inr r)
      then obtain nread st1 where
        r: "readSync st fd buf bufSize (bufCap - bufSize) = Inr (nread, st1)"
        by (cases r) auto
      show ?thesis
      proof (cases "nread = 0")
        case z: True
        with True r "1.prems" readSync_remaining [OF r] show ?thesis
          by (simp add: read_til_full.simps [of st fd buf bufSize])
      next
        case nz: False
        with True r "1.prems" have "read_til_full st1 fd buf (bufSize + nread) = (None, st', n)"
          by (simp add: read_til_full.simps [of st fd buf bufSize])
        from "1.IH" [OF True r refl nz this] readSync_remaining [OF r] show ?thesis
          by simp
      qed
    qed
  qed
qed

lemma read_til_full_bounds:
  "read_til_full st fd buf bufSize = (r, st', n) \<Longrightarrow>
     bufSize \<le> n \<and> n \<le> max bufSize bufCap"
proof (induction st fd buf bufSize rule: read_til_full.induct)
  case (1 st fd buf bufSize)
  show ?case
  proof (cases "bufSize < bufCap")
    case False
    with "1.prems" show ?thesis by (simp add: read_til_full.simps [of st fd buf bufSize])
  next
    case True
    show ?thesis
    proof (cases "readSync st fd buf bufSize (bufCap - bufSize)")
      case (Inl e)
      with True "1.prems" show ?thesis by (simp add: read_til_full.simps [of st fd buf bufSize])
    next
      case (Inr x)
      then obtain nread st1 where
        x: "readSync st fd buf bufSize (bufCap - bufSize) = Inr (nread, st1)"
        by (cases x) auto
      from readSync_Inr [OF x] have le: "nread \<le> bufCap - bufSize" by blast
      show ?thesis
      proof (cases "nread = 0")
        case z: True
        with True x "1.prems" show ?thesis
          by (simp add: read_til_full.simps [of st fd buf bufSize])
      next
        case nz: False
        with True x "1.prems" have "read_til_full st1 fd buf (bufSize + nread) = (r, st', n)"
          by (simp add: read_til_full.simps [of st fd buf bufSize])
        from "1.IH" [OF True x refl nz this] le True show ?thesis
          by simp
      qed
    qed
  qed
qed

function stream_file ::
  "world \<Rightarrow> request \<Rightarrow> nat \<Rightarrow> nat \<Rightarrow> nat \<Rightarrow> error option \<times> world \<times> request"
where
  "stream_file st req fd buf bufSize =
     (case read_til_full st fd buf bufSize of
        (Some e, st', bufSize') \<Rightarrow> (Some e, st', req)
      | (None, st', bufSize') \<Rightarrow>
          if bufSize' = bufCap then
            stream_file st' (httpReq_write req (BufRef buf 0 bufCap)) fd buf 0
          else (None, st', httpReq_write req (BufRef buf 0 bufSize')))"
  by pat_completeness auto
termination
proof (relation "measures [\<lambda>(st, req, fd, buf, bufSize). remaining st fd,
                           \<lambda>(st, req, fd, buf, bufSize). if bufSize = 0 then 0 else 1]", goal_cases)
  case 1
  show ?case by simp
next
  case (2 st req fd buf bufSize x1 x2 st' bufSize')
  then have "read_til_full st fd buf bufSize = (None, st', bufCap)" by simp
  from read_til_full_remaining [OF this] read_til_full_bounds [OF this]
  have "remaining st' fd + bufCap = remaining st fd + bufSize" "bufSize \<le> bufCap"
    by simp_all
  moreover have "0 < bufCap" by (simp add: bufCap_def)
  ultimately show ?case by auto
qed

declare stream_file.simps [simp del]

text \<open>
  The test \<^verbatim>\<open>typeof val === 'object' && val.filePath\<close>: \<^verbatim>\<open>typeof null\<close> is
  \<^verbatim>\<open>'object'\<close> and reading a property of \<^verbatim>\<open>null\<close> throws a TypeError; an empty or absent
  \<^verbatim>\<open>filePath\<close> is falsy. \<open>string_form\<close> is the string that \<^verbatim>\<open>val + ...\<close> concatenates.
\<close>

definition file_upload :: "field_value \<Rightarrow> error + jsstring option" where
  "file_upload val =
     (case val of
        Scalar _ \<Rightarrow> Inr None
      | Null \<Rightarrow> Inl TypeError
      | Object None _ \<Rightarrow> Inr None
      | Object (Some filePath) _ \<Rightarrow> Inr (if filePath \<noteq> [] then Some filePath else None))"

definition string_form :: "field_value \<Rightarrow> jsstring" where
  "string_form val = (case val of Scalar s \<Rightarrow> s | Object _ s \<Rightarrow> s | Null \<Rightarrow> js ''null'')"

text \<open>
  The header lines written after the boundary line of a part: for a file, the
  Content-Disposition line with the field name and the file name, the Content-Type and
  Content-Transfer-Encoding lines and an empty line; for any other value the
  Content-Disposition line with the field name and an empty line.
\<close>

definition file_part_header :: "jsstring \<Rightarrow> jsstring \<Rightarrow> jsstring" where
  "file_part_header key filePath =
     crlf @ js ''Content-Disposition: form-data; name='' @ [dquote] @ key @
     [dquote] @ js ''; filename='' @ [dquote] @ filePath @ [dquote] @ crlf @
     js ''Content-Type: application/octet-stream'' @ crlf @
     js ''Content-Transfer-Encoding: binary'' @ crlf @ crlf"

definition plain_part_header :: "jsstring \<Rightarrow> jsstring" where
  "plain_part_header key =
     crlf @ js ''Content-Disposition: form-data; name='' @ [dquote] @ key @ [dquote] @ crlf @ crlf"

text \<open>
  \<^verbatim>\<open>
  obj.writeFormData = function(httpReq, data){
      var boundBytes = crypto.pseudoRandomBytes(16);
      var boundStr = (new Buffer(boundBytes)).toString('hex');
      httpReq.setHeader('Content-Type',
          'multipart/form-data; boundary='+boundStr);
      var bufCap = 1<<16;
      var buf = new Buffer(bufCap);
      for (var key in data)
      {
          var val = data[key];
          httpReq.write('--'+boundStr, 'ascii');
          // file upload?
          if (typeof val === 'object' && val.filePath)
          {
              httpReq.write("\r\nContent-Disposition: form-data; name=\""+ key +
                  "\"; filename=\""+val.filePath+"\"\r\n"+
                  "Content-Type: application/octet-stream\r\n"+
                  "Content-Transfer-Encoding: binary\r\n\r\n", "utf8");
              var fd = fs.openSync(val.filePath, 'r');
              var bufSize = 0;
              while(true) { ... }
              fs.closeSync(fd);
              httpReq.write("\r\n", 'ascii');
          }
          else
          {
              httpReq.write("\r\nContent-Disposition: form-data; name=\""+ key +"\"\r\n\r\n", 'utf8');
              httpReq.write(val+"\r\n", 'utf8');
          }
      }
      httpReq.end('--'+boundStr+"--\r\n",'ascii');
  };
  \<close>
  \<open>write_fields\<close> is the loop over the entries of the mapping; it returns the error that
  was thrown, if any, with the state at that moment. \<open>boundBytes\<close> are the bytes that
  \<^verbatim>\<open>crypto.pseudoRandomBytes(16)\<close> returns and \<open>mem\<close> the contents of the memory that the
  buffer is allocated in. The one buffer is used for every file field of the mapping.
\<close>

fun write_fields ::
  "jsstring \<Rightarrow> world \<Rightarrow> request \<Rightarrow> nat \<Rightarrow> (jsstring \<times> field_value) list \<Rightarrow>
     error option \<times> world \<times> request"
where
  "write_fields boundStr st req buf [] = (None, st, req)"
| "write_fields boundStr st req buf ((key, val) # rest) =
     (let req1 = httpReq_write req (Text (js ''--'' @ boundStr) Ascii) in
      case file_upload val of
        Inl e \<Rightarrow> (Some e, st, req1)
      | Inr (Some filePath) \<Rightarrow>
          (let req2 = httpReq_write req1 (Text (file_part_header key filePath) Utf8) in
           case openSync st filePath of
             Inl e \<Rightarrow> (Some e, st, req2)
           | Inr (fd, st1) \<Rightarrow>
               (case stream_file st1 req2 fd buf 0 of
                  (Some e, st2, req3) \<Rightarrow> (Some e, st2, req3)
                | (None, st2, req3) \<Rightarrow>
                    (case closeSync st2 fd of
                       Inl e \<Rightarrow> (Some e, st2, req3)
                     | Inr st3 \<Rightarrow>
                         write_fields boundStr st3
                           (httpReq_write req3 (Text crlf Ascii)) buf rest)))
      | Inr None \<Rightarrow>
          (let req2 = httpReq_write req1 (Text (plain_part_header key) Utf8);
               req3 = httpReq_write req2 (Text (string_form val @ crlf) Utf8)
           in write_fields boundStr st req3 buf rest))"

definition writeFormData ::
  "byte list \<Rightarrow> byte list \<Rightarrow> world \<Rightarrow> request \<Rightarrow> (jsstring \<times> field_value) list \<Rightarrow>
     error option \<times> world \<times> request"
where
  "writeFormData boundBytes mem st httpReq data =
     (let boundStr = toString_hex boundBytes;
          req0 = httpReq_setHeader httpReq (js ''Content-Type'')
                   (js ''multipart/form-data; boundary='' @ boundStr);
          (buf, st0) = new_Buffer st mem bufCap
      in case write_fields boundStr st0 req0 buf data of
           (Some e, st', req') \<Rightarrow> (Some e, st', req')
         | (None, st', req') \<Rightarrow>
             (None, st', httpReq_end req' (Text (js ''--'' @ boundStr @ js ''--'' @ crlf) Ascii)))"

section \<open>Auxiliary definitions for the tokenizer\<close>

text \<open>
  The separators recognised by \<^verbatim>\<open>skipWhitespace\<close> and by the main loop (space and tab),
  and the two quote chars.
\<close>

definition is_sep :: "jschar \<Rightarrow> bool" where
  "is_sep c \<longleftrightarrow> c = space \<or> c = tab"

definition is_quote :: "jschar \<Rightarrow> bool" where
  "is_quote c \<longleftrightarrow> c = dquote \<or> c = squote"

text \<open>
  A view of \<open>parseArgs_loop\<close> on the rest of the input instead of an index into it:
  \<open>parseArgs_loop s i q args cur = scan q args cur (drop i s)\<close> is lemma
  \<open>parseArgs_loop_scan\<close> below. It is used in proofs only.
\<close>

function scan ::
  "jschar option \<Rightarrow> jsstring list \<Rightarrow> jsstring \<Rightarrow> jsstring \<Rightarrow> error + jsstring list"
where
  "scan sq args cur [] =
     (if sq \<noteq> None then Inl UnmatchedQuote
      else Inr (if cur \<noteq> [] then args @ [trim cur] else args))"
| "scan (Some q) args cur (c # cs) =
     (if c = q then
        (let r = dropWhile is_sep cs in
         if r = [] then Inr (args @ [trim cur]) else scan None (args @ [trim cur]) [] r)
      else scan (Some q) args (cur @ [c]) cs)"
| "scan None args cur (c # cs) =
     (if is_quote c then
        scan (Some c) (if trim cur \<noteq> [] then args @ [trim cur] else args) [] cs
      else if is_sep c then
        (let r = dropWhile is_sep cs in
         if r = [] then Inr (args @ [trim cur]) else scan None (args @ [trim cur]) [] r)
      else scan None args (cur @ [c]) cs)"
  by pat_completeness auto
termination
  by (relation "measure (\<lambda>(sq, args, cur, rest). length rest)")
     (auto simp: length_dropWhile_le less_Suc_eq_le)

text \<open>A string without leading or trailing whitespace, in the sense of \<open>trim\<close>.\<close>

definition trimmed :: "jsstring \<Rightarrow> bool" where
  "trimmed t \<longleftrightarrow> t = [] \<or> (\<not> is_trim_ws (hd t) \<and> \<not> is_trim_ws (last t))"

text \<open>
  The quoting state machine as the specification words it: in the unquoted state a quote
  char opens a quote and is remembered; in the quoted state the same quote char closes the
  quote, and any other character, the other quote char included, is taken literally. A
  quote is opened and never closed when the input ends in the quoted state.
\<close>

fun quote_state :: "jschar option \<Rightarrow> jsstring \<Rightarrow> jschar option" where
  "quote_state st [] = st"
| "quote_state None (c # cs) = quote_state (if is_quote c then Some c else None) cs"
| "quote_state (Some q) (c # cs) = quote_state (if c = q then None else Some q) cs"

definition unclosed_quote :: "jsstring \<Rightarrow> bool" where
  "unclosed_quote s \<longleftrightarrow> quote_state None s \<noteq> None"

text \<open>Tokens put in front of the result of a parse.\<close>

definition prepend :: "jsstring list \<Rightarrow> error + jsstring list \<Rightarrow> error + jsstring list" where
  "prepend a r = (case r of Inl e \<Rightarrow> Inl e | Inr ts \<Rightarrow> Inr (a @ ts))"

text \<open>
  The source has no function that quotes a token. Following the specification's
  round-trip property, a token is re-quoted with a quote char that does not occur in it
  (the double quote unless the token contains one), and the re-quoted tokens are joined
  with single spaces, as \<^verbatim>\<open>Array.prototype.join(' ')\<close> does.
\<close>

definition requote :: "jsstring \<Rightarrow> jsstring" where
  "requote t = (let q = (if dquote \<in> set t then squote else dquote) in q # t @ [q])"

fun join :: "jsstring list \<Rightarrow> jsstring" where
  "join [] = []"
| "join [t] = t"
| "join (t # u # us) = t @ space # join (u # us)"

text \<open>A string in which at most one of the two quote chars occurs.\<close>

definition no_both :: "jsstring \<Rightarrow> bool" where
  "no_both t \<longleftrightarrow> dquote \<notin> set t \<or> squote \<notin> set t"

text \<open>
  A string whose only whitespace characters, in the sense of \<open>trim\<close>, are space and tab.
\<close>

definition only_sep_ws :: "jsstring \<Rightarrow> bool" where
  "only_sep_ws s \<longleftrightarrow> (\<forall>c\<in>set s. is_trim_ws c \<longrightarrow> is_sep c)"

text \<open>
  Starting in quoting state \<open>sq\<close>, the string contains a quoted segment whose content
  trims to the empty string.
\<close>

definition blank_from :: "jschar option \<Rightarrow> jsstring \<Rightarrow> bool" where
  "blank_from sq s \<longleftrightarrow>
     (\<exists>pre q body rest. s = pre @ q # body @ q # rest \<and> quote_state sq pre = None \<and>
        is_quote q \<and> q \<notin> set body \<and> trim body = [])"

text \<open>
  An input contains an explicitly quoted empty segment when an opening quote char is
  immediately followed by the same quote char.
\<close>

fun has_empty_quoted :: "jschar option \<Rightarrow> jsstring \<Rightarrow> bool" where
  "has_empty_quoted sq [] = False"
| "has_empty_quoted None (c # cs) =
     (if is_quote c then (cs \<noteq> [] \<and> hd cs = c) \<or> has_empty_quoted (Some c) cs
      else has_empty_quoted None cs)"
| "has_empty_quoted (Some q) (c # cs) = has_empty_quoted (if c = q then None else Some q) cs"

section \<open>Auxiliary definitions for the encoder\<close>

text \<open>
  The sizes of the chunks in which a file body of \<open>n\<close> bytes is handed to the sink, by the
  specification's streaming algorithm with buffer capacity \<open>c\<close>: full buffers of \<open>c\<close> bytes
  while at least \<open>c\<close> bytes remain, then the partial buffer with the remaining bytes, fewer
  than \<open>c\<close>.
\<close>

function chunk_sizes :: "nat \<Rightarrow> nat \<Rightarrow> nat list" where
  "chunk_sizes c n = (if c = 0 \<or> n < c then [n] else c # chunk_sizes c (n - c))"
  by pat_completeness auto
termination
  by (relation "measure (\<lambda>(c, n). n)") auto

declare chunk_sizes.simps [simp del]

text \<open>
  The events of one field: the boundary line, the header lines, the body and the closing
  CRLF. The body of a file field is a sequence of Buffers on the block at address \<open>buf\<close>,
  of the sizes above; the body of any other field is the string form of the value.
\<close>

definition part_events ::
  "jsstring \<Rightarrow> nat \<Rightarrow> (jsstring \<rightharpoonup> byte list) \<Rightarrow> jsstring \<times> field_value \<Rightarrow> event list"
where
  "part_events boundStr buf fs kv =
     Write (Text (js ''--'' @ boundStr) Ascii) #
     (case file_upload (snd kv) of
        Inr (Some filePath) \<Rightarrow>
          Write (Text (file_part_header (fst kv) filePath) Utf8) #
          map (\<lambda>n. Write (BufRef buf 0 n))
            (chunk_sizes bufCap (case fs filePath of Some d \<Rightarrow> length d | None \<Rightarrow> 0)) @
          [Write (Text crlf Ascii)]
      | _ \<Rightarrow>
          [Write (Text (plain_part_header (fst kv)) Utf8),
           Write (Text (string_form (snd kv) @ crlf) Utf8)])"

text \<open>
  A well-formed descriptor table: every open descriptor is below the next one to be handed
  out, so \<open>openSync\<close> never reuses an open descriptor.
\<close>

definition fs_ok :: "world \<Rightarrow> bool" where
  "fs_ok st \<longleftrightarrow> (\<forall>fd\<in>dom (handles st). fd < next_fd st)"

text \<open>
  A field value that the loop can process: it is not \<^verbatim>\<open>null\<close>, and
  the file it refers to, if any, exists.
\<close>

definition readable :: "(jsstring \<rightharpoonup> byte list) \<Rightarrow> field_value \<Rightarrow> bool" where
  "readable fs val =
     (case file_upload val of
        Inl _ \<Rightarrow> False
      | Inr None \<Rightarrow> True
      | Inr (Some filePath) \<Rightarrow> fs filePath \<noteq> None)"

text \<open>
  The byte stream that the sink sends for a list of events when the memory is \<open>mem\<close>: the
  chunks in order, each string encoded by \<open>enc\<close>, which stands for the encoder of the
  platform, and each Buffer read from its block of memory. The sink sends after
  \<open>writeFormData\<close> has returned, so \<open>mem\<close> is the memory of the state that the function
  returns.
\<close>

definition event_chunk :: "event \<Rightarrow> chunk" where
  "event_chunk ev = (case ev of Write c \<Rightarrow> c | End c \<Rightarrow> c)"

definition chunk_bytes ::
  "(encoding \<Rightarrow> jsstring \<Rightarrow> byte list) \<Rightarrow> (nat \<rightharpoonup> byte list) \<Rightarrow> chunk \<Rightarrow> byte list"
where
  "chunk_bytes enc mem c =
     (case c of
        Text s e \<Rightarrow> enc e s
      | BufRef a off len \<Rightarrow>
          (case mem a of None \<Rightarrow> [] | Some block \<Rightarrow> take len (drop off block)))"

definition wire ::
  "(encoding \<Rightarrow> jsstring \<Rightarrow> byte list) \<Rightarrow> (nat \<rightharpoonup> byte list) \<Rightarrow> event list \<Rightarrow> byte list"
where
  "wire enc mem evs = concat (map (\<lambda>ev. chunk_bytes enc mem (event_chunk ev)) evs)"

text \<open>The chunk that ends the stream: two dashes, the boundary, two dashes and CRLF.\<close>

definition terminator :: "jsstring \<Rightarrow> chunk" where
  "terminator boundStr = Text (js ''--'' @ boundStr @ js ''--'' @ crlf) Ascii"

text \<open>
  A request, a state with one file and no Buffer yet, and a field mapping with a scalar
  field and a file field, as in the specification's example; and a state with two files
  and a mapping with two file fields.
\<close>

definition example_request :: request where
  "example_request = \<lparr>headers = Map.empty, events = []\<rparr>"

definition example_fs :: "byte list \<Rightarrow> read_outcome list \<Rightarrow> world" where
  "example_fs d sched =
     \<lparr>files = [js ''/tmp/x.bin'' \<mapsto> d], handles = Map.empty, next_fd = 3, schedule = sched,
      memory = Map.empty, next_addr = 0\<rparr>"

definition example_data :: "(jsstring \<times> field_value) list" where
  "example_data =
     [(js ''a'', Scalar (js ''1'')),
      (js ''file'', Object (Some (js ''/tmp/x.bin'')) (js ''[object Object]''))]"

definition two_files_fs :: world where
  "two_files_fs =
     \<lparr>files = [js ''/tmp/x.bin'' \<mapsto> [1, 2, 3], js ''/tmp/y.bin'' \<mapsto> [9, 8]],
      handles = Map.empty, next_fd = 3, schedule = [], memory = Map.empty, next_addr = 0\<rparr>"

definition two_files_data :: "(jsstring \<times> field_value) list" where
  "two_files_data =
     [(js ''x'', Object (Some (js ''/tmp/x.bin'')) (js ''[object Object]'')),
      (js ''y'', Object (Some (js ''/tmp/y.bin'')) (js ''[object Object]''))]"

section \<open>Properties of the tokenizer\<close>

lemma skipWhitespace_drop:
  "skipWhitespace s i =
     (let r = dropWhile is_sep (drop i s) in
      if r = [] then - 1 else int (length s - length r))"
proof (induction s i rule: skipWhitespace.induct)
  case (1 s i)
  show ?case
  proof (cases "i < length s")
    case False
    then show ?thesis by (simp add: skipWhitespace.simps [of s i])
  next
    case True
    then have d: "drop i s = s ! i # drop (Suc i) s"
      by (simp add: Cons_nth_drop_Suc)
    show ?thesis
    proof (cases "is_sep (s ! i)")
      case False
      with True d show ?thesis
        by (simp add: skipWhitespace.simps [of s i] is_sep_def)
    next
      case sep: True
      with True have "skipWhitespace s i = skipWhitespace s (Suc i)"
        by (auto simp: skipWhitespace.simps [of s i] is_sep_def)
      moreover from sep True have "\<not> (s ! i \<noteq> space \<and> s ! i \<noteq> tab)" by (simp add: is_sep_def)
      ultimately show ?thesis
        using "1.IH" [OF True refl] d sep by simp
    qed
  qed
qed

lemma dropWhile_drop_suffix:
  "drop (length s - length (dropWhile P (drop i s))) s = dropWhile P (drop i s)"
proof -
  have "drop i s = takeWhile P (drop i s) @ dropWhile P (drop i s)" by simp
  then have "s = (take i s @ takeWhile P (drop i s)) @ dropWhile P (drop i s)"
    by (metis append_take_drop_id append.assoc)
  then show ?thesis
    by (metis append_eq_conv_conj length_append add_diff_cancel_right' )
qed

lemma skipWhitespace_neg:
  "skipWhitespace s k < 0 \<longleftrightarrow> dropWhile is_sep (drop k s) = []"
  by (simp add: skipWhitespace_drop Let_def del: dropWhile_eq_Nil_conv)

lemma skipWhitespace_nonneg_drop:
  "\<not> skipWhitespace s k < 0 \<Longrightarrow>
     drop (nat (skipWhitespace s k)) s = dropWhile is_sep (drop k s)"
  by (simp add: skipWhitespace_drop Let_def dropWhile_drop_suffix del: dropWhile_eq_Nil_conv split: if_splits)

lemma parseArgs_loop_scan:
  "parseArgs_loop s i sq args cur = scan sq args cur (drop i s)"
proof (induction s i sq args cur rule: parseArgs_loop.induct)
  case (1 s i sq args cur)
  show ?case
  proof (cases "i < length s")
    case False
    then show ?thesis by (simp add: parseArgs_loop.simps [of s i] del: dropWhile_eq_Nil_conv)
  next
    case True
    then have d: "drop i s = s ! i # drop (Suc i) s"
      by (simp add: Cons_nth_drop_Suc)
    let ?c = "s ! i"
    let ?r = "dropWhile is_sep (drop (Suc i) s)"
    show ?thesis
    proof (cases sq)
      case (Some q)
      show ?thesis
      proof (cases "?c = q")
        case same: True
        show ?thesis
        proof (cases "skipWhitespace s (i + 1) < 0")
          case neg: True
          then have "?r = []" by (simp add: skipWhitespace_neg del: dropWhile_eq_Nil_conv)
          with True Some same neg d show ?thesis
            by (simp add: parseArgs_loop.simps [of s i] del: dropWhile_eq_Nil_conv)
        next
          case pos: False
          then have r: "?r \<noteq> []" by (simp add: skipWhitespace_neg del: dropWhile_eq_Nil_conv)
          from pos have dr: "drop (nat (skipWhitespace s (i + 1))) s = ?r"
            using skipWhitespace_nonneg_drop [of s "i + 1"] by simp
          from "1.IH"(4) [OF True refl Some same refl refl pos]
          have "parseArgs_loop s (nat (skipWhitespace s (i + 1))) None (args @ [trim cur]) []
                = scan None (args @ [trim cur]) [] ?r"
            by (simp only: dr)
          with True Some same pos d r show ?thesis
            by (simp add: parseArgs_loop.simps [of s i] del: dropWhile_eq_Nil_conv)
        qed
      next
        case diff: False
        from "1.IH"(5) [OF True refl Some diff] True Some diff d show ?thesis
          by (simp add: parseArgs_loop.simps [of s i] del: dropWhile_eq_Nil_conv)
      qed
    next
      case None
      show ?thesis
      proof (cases "?c = dquote \<or> ?c = squote")
        case q: True
        then have iq: "is_quote ?c" by (simp add: is_quote_def)
        from "1.IH"(1) [OF True refl None q refl refl refl] True None q iq d show ?thesis
          by (simp add: parseArgs_loop.simps [of s i] Let_def)
      next
        case nq: False
        then have niq: "\<not> is_quote ?c" by (simp add: is_quote_def)
        show ?thesis
        proof (cases "?c = space \<or> ?c = tab")
          case sp: True
          then have isp: "is_sep ?c" by (simp add: is_sep_def)
          show ?thesis
          proof (cases "skipWhitespace s (i + 1) < 0")
            case neg: True
            then have "?r = []" by (simp add: skipWhitespace_neg del: dropWhile_eq_Nil_conv)
            with True None nq niq sp isp neg d show ?thesis
              by (simp add: parseArgs_loop.simps [of s i] del: dropWhile_eq_Nil_conv)
          next
            case pos: False
            then have r: "?r \<noteq> []" by (simp add: skipWhitespace_neg del: dropWhile_eq_Nil_conv)
            from pos have dr: "drop (nat (skipWhitespace s (i + 1))) s = ?r"
              using skipWhitespace_nonneg_drop [of s "i + 1"] by simp
            from "1.IH"(2) [OF True refl None nq sp refl refl pos]
            have "parseArgs_loop s (nat (skipWhitespace s (i + 1))) None (args @ [trim cur]) []
                  = scan None (args @ [trim cur]) [] ?r"
              by (simp only: dr)
            with True None nq niq sp isp pos d r show ?thesis
              by (simp add: parseArgs_loop.simps [of s i] del: dropWhile_eq_Nil_conv)
          qed
        next
          case nsp: False
          then have nisp: "\<not> is_sep ?c" by (simp add: is_sep_def)
          from "1.IH"(3) [OF True refl None nq nsp] True None nq niq nsp nisp d show ?thesis
            by (simp add: parseArgs_loop.simps [of s i] del: dropWhile_eq_Nil_conv)
        qed
      qed
    qed
  qed
qed

lemma scan_None_Nil [simp]: "scan None args [] [] = Inr args"
  by simp

lemma parseArgs_scan: "parseArgs s = scan None [] [] (dropWhile is_sep s)"
proof (cases "skipWhitespace s 0 < 0")
  case True
  then show ?thesis
    by (simp add: parseArgs_def skipWhitespace_neg del: dropWhile_eq_Nil_conv)
next
  case False
  from skipWhitespace_nonneg_drop [OF False] False show ?thesis
    by (simp add: parseArgs_def parseArgs_loop_scan)
qed

lemma trimmed_trim: "trimmed (trim s)"
proof -
  let ?ys = "dropWhile is_trim_ws s"
  let ?zs = "dropWhile is_trim_ws (rev ?ys)"
  show ?thesis
  proof (cases "?zs = []")
    case True
    then show ?thesis by (simp add: trimmed_def trim_def)
  next
    case False
    then have hz: "\<not> is_trim_ws (hd ?zs)" by (rule hd_dropWhile)
    from False have ys: "?ys \<noteq> []" by (metis dropWhile.simps(1) rev.simps(1))
    then have hy: "\<not> is_trim_ws (hd ?ys)" by (rule hd_dropWhile)
    have "rev ?ys = takeWhile is_trim_ws (rev ?ys) @ ?zs" by simp
    then have "last (rev ?ys) = last ?zs" using False by (metis last_appendR)
    with ys have "last ?zs = hd ?ys" by (simp add: last_rev)
    with hy hz False show ?thesis
      by (simp add: trimmed_def trim_def hd_rev last_rev)
  qed
qed

lemma trim_trimmed: "trimmed t \<Longrightarrow> trim t = t"
proof (cases "t = []")
  case True
  then show ?thesis by (simp add: trim_def)
next
  case False
  assume "trimmed t"
  with False have h: "\<not> is_trim_ws (hd t)" and l: "\<not> is_trim_ws (last t)"
    by (simp_all add: trimmed_def)
  from h False have a: "dropWhile is_trim_ws t = t"
    by (cases t) simp_all
  from False have "rev t \<noteq> []" by simp
  moreover from l False have "\<not> is_trim_ws (hd (rev t))" by (simp add: hd_rev)
  ultimately have "dropWhile is_trim_ws (rev t) = rev t"
    by (cases "rev t") simp_all
  with a show ?thesis by (simp add: trim_def)
qed

lemma trim_idem: "trim (trim s) = trim s"
  by (rule trim_trimmed [OF trimmed_trim])

lemma set_trim: "set (trim s) \<subseteq> set s"
  unfolding trim_def by (auto dest!: set_dropWhileD)

lemma sep_not_quote: "is_sep c \<Longrightarrow> \<not> is_quote c"
  by (auto simp: is_sep_def is_quote_def space_def tab_def dquote_def squote_def)

lemma sep_trim_ws: "is_sep c \<Longrightarrow> is_trim_ws c"
  by (auto simp: is_sep_def is_trim_ws_def space_def tab_def)

lemma quote_not_trim_ws: "is_quote c \<Longrightarrow> \<not> is_trim_ws c"
  by (auto simp: is_quote_def is_trim_ws_def dquote_def squote_def)

lemma quote_state_skip: "quote_state None (dropWhile is_sep cs) = quote_state None cs"
  by (induction cs) (simp_all add: sep_not_quote)

lemma scan_close:
  "scan (Some q) args cur (q # cs) = scan None (args @ [trim cur]) [] (dropWhile is_sep cs)"
  by (simp add: Let_def del: dropWhile_eq_Nil_conv)

lemma scan_sep:
  "is_sep c \<Longrightarrow>
     scan None args cur (c # cs) = scan None (args @ [trim cur]) [] (dropWhile is_sep cs)"
  by (simp add: Let_def sep_not_quote del: dropWhile_eq_Nil_conv)

lemma scan_quote_state:
  "(quote_state sq rest \<noteq> None \<longrightarrow> scan sq args cur rest = Inl UnmatchedQuote)
   \<and> (quote_state sq rest = None \<longrightarrow> (\<exists>ts. scan sq args cur rest = Inr ts))"
proof (induction sq args cur rest rule: scan.induct)
  case (1 sq args cur)
  then show ?case by simp
next
  case (2 q args cur c cs)
  show ?case
  proof (cases "c = q")
    case False
    with 2 show ?thesis by simp
  next
    case True
    show ?thesis
    proof (cases "dropWhile is_sep cs = []")
      case e: True
      then have "quote_state None cs = None"
        by (metis quote_state_skip quote_state.simps(1))
      with True e show ?thesis by (simp del: dropWhile_eq_Nil_conv)
    next
      case ne: False
      from "2.IH"(1) [OF True refl ne] True ne show ?thesis
        by (simp add: quote_state_skip del: dropWhile_eq_Nil_conv)
    qed
  qed
next
  case (3 args cur c cs)
  show ?case
  proof (cases "is_quote c")
    case True
    with 3 show ?thesis by simp
  next
    case nq: False
    show ?thesis
    proof (cases "is_sep c")
      case False
      with nq 3 show ?thesis by simp
    next
      case True
      show ?thesis
      proof (cases "dropWhile is_sep cs = []")
        case e: True
        then have "quote_state None cs = None"
          by (metis quote_state_skip quote_state.simps(1))
        with True nq e show ?thesis by (simp del: dropWhile_eq_Nil_conv)
      next
        case ne: False
        from "3.IH"(2) [OF nq True refl ne] True nq ne show ?thesis
          by (simp add: quote_state_skip del: dropWhile_eq_Nil_conv)
      qed
    qed
  qed
qed

text \<open>
  Claim C2: \<open>parseArgs\<close> fails with the unmatched-quote error exactly when the input
  ends inside an open quote, and returns a token sequence on every other input.
\<close>

theorem parseArgs_unclosed:
  "(parseArgs s = Inl UnmatchedQuote \<longleftrightarrow> unclosed_quote s) \<and>
   ((\<exists>ts. parseArgs s = Inr ts) \<longleftrightarrow> \<not> unclosed_quote s)"
  using scan_quote_state [of None "dropWhile is_sep s" "[]" "[]"]
  by (auto simp: parseArgs_scan unclosed_quote_def quote_state_skip)

theorem parseArgs_unclosed_witness:
  "unclosed_quote (squote # js ''unterminated'') \<and>
   parseArgs (squote # js ''unterminated'') = Inl UnmatchedQuote \<and>
   \<not> unclosed_quote (js ''a b'') \<and> (\<exists>ts. parseArgs (js ''a b'') = Inr ts)"
  using parseArgs_unclosed [of "squote # js ''unterminated''"] parseArgs_unclosed [of "js ''a b''"]
  by (simp add: unclosed_quote_def is_quote_def dquote_def squote_def js_def)

lemmas chars = is_sep_def is_quote_def space_def tab_def dquote_def squote_def js_def

(* C5 *)

text \<open>
  Claim C5 as stated fails: on the one-unit string consisting of a single quote char,
  \<open>start\<close> is a quote char, so \<open>isQuote\<close> holds, while \<open>end\<close> is the number 0 and differs
  from \<open>start\<close>; \<open>unquote\<close> raises the mismatched-quote error.
\<close>

theorem unquote_lone_quote_counterexample:
  "unquote [squote] = Inl MismatchedQuote \<and> unquote [squote] \<noteq> Inr [squote]"
  by (simp add: unquote_def trim_def is_trim_ws_def squote_def dquote_def)

lemma trim_single: "\<not> is_trim_ws c \<Longrightarrow> trim [c] = [c]"
  by (simp add: trim_def)

text \<open>
  Claim C5, amended: for every one-character input whose single character is a quote
  char, \<open>unquote\<close> raises the mismatched-quote error.
\<close>

theorem unquote_lone_quote: "is_quote c \<Longrightarrow> unquote [c] = Inl MismatchedQuote"
  by (auto simp: unquote_def trim_single quote_not_trim_ws is_quote_def)

theorem unquote_lone_quote_witness:
  "is_quote dquote \<and> unquote [dquote] = Inl MismatchedQuote"
  using unquote_lone_quote [of dquote] by (simp add: is_quote_def)

(* C6 *)

lemma substring_inner:
  "2 \<le> length t \<Longrightarrow> substring t (Suc 0) (length t - Suc 0) = butlast (tl t)"
  by (cases t) (auto simp: substring_def Let_def min_def max_def butlast_conv_take)

text \<open>
  Claim C6: \<open>unquote\<close> works on the trimmed string. If it has length at least 2 and
  begins and ends with the same quote char, the result is the substring strictly between
  the two; if exactly one end is a quote char, the mismatched-quote error is raised; if
  neither end is a quote char (or the trimmed string is empty), the trimmed string is
  returned. The two examples of the specification are part of the statement.
\<close>

theorem unquote_cases:
  "(2 \<le> length (trim s) \<and> is_quote (hd (trim s)) \<and> last (trim s) = hd (trim s)
      \<longrightarrow> unquote s = Inr (butlast (tl (trim s)))) \<and>
   (trim s \<noteq> [] \<and> is_quote (hd (trim s)) \<noteq> is_quote (last (trim s))
      \<longrightarrow> unquote s = Inl MismatchedQuote) \<and>
   (trim s = [] \<or> (\<not> is_quote (hd (trim s)) \<and> \<not> is_quote (last (trim s)))
      \<longrightarrow> unquote s = Inr (trim s)) \<and>
   unquote (js ''  '' @ squote # js ''hello'' @ squote # js ''  '') = Inr (js ''hello'') \<and>
   unquote (js ''hello'') = Inr (js ''hello'')"
proof (intro conjI impI)
  assume a: "2 \<le> length (trim s) \<and> is_quote (hd (trim s)) \<and> last (trim s) = hd (trim s)"
  then have ne: "trim s \<noteq> []" by auto
  from a ne have "trim s ! 0 = hd (trim s)" "trim s ! (length (trim s) - 1) = hd (trim s)"
    by (simp_all add: hd_conv_nth last_conv_nth)
  with a show "unquote s = Inr (butlast (tl (trim s)))"
    by (auto simp: unquote_def Let_def substring_inner is_quote_def)
next
  assume a: "trim s \<noteq> [] \<and> is_quote (hd (trim s)) \<noteq> is_quote (last (trim s))"
  then have "hd (trim s) \<noteq> last (trim s)" by auto
  with a have l2: "2 \<le> length (trim s)"
    by (cases "trim s"; cases "tl (trim s)") auto
  from a have "trim s ! 0 = hd (trim s)" "trim s ! (length (trim s) - 1) = last (trim s)"
    by (simp_all add: hd_conv_nth last_conv_nth)
  with a l2 show "unquote s = Inl MismatchedQuote"
    by (auto simp: unquote_def Let_def is_quote_def)
next
  assume a: "trim s = [] \<or> (\<not> is_quote (hd (trim s)) \<and> \<not> is_quote (last (trim s)))"
  show "unquote s = Inr (trim s)"
  proof (cases "trim s = []")
    case True
    then show ?thesis by (simp add: unquote_def)
  next
    case False
    then have "trim s ! 0 = hd (trim s)" "trim s ! (length (trim s) - 1) = last (trim s)"
      by (simp_all add: hd_conv_nth last_conv_nth)
    with a False show ?thesis
      by (auto simp: unquote_def Let_def is_quote_def)
  qed
next
  show "unquote (js ''  '' @ squote # js ''hello'' @ squote # js ''  '') = Inr (js ''hello'')"
    by (simp add: unquote_def trim_def is_trim_ws_def substring_def chars)
next
  show "unquote (js ''hello'') = Inr (js ''hello'')"
    by (simp add: unquote_def trim_def is_trim_ws_def substring_def chars)
qed

theorem unquote_cases_witness:
  "(2 \<le> length (trim (js ''  '' @ squote # js ''hi'' @ squote # js '' '')) \<and>
    is_quote (hd (trim (js ''  '' @ squote # js ''hi'' @ squote # js '' ''))) \<and>
    last (trim (js ''  '' @ squote # js ''hi'' @ squote # js '' '')) =
      hd (trim (js ''  '' @ squote # js ''hi'' @ squote # js '' '')) \<and>
    unquote (js ''  '' @ squote # js ''hi'' @ squote # js '' '') = Inr (js ''hi'')) \<and>
   (trim (squote # js ''hi '') \<noteq> [] \<and>
    is_quote (hd (trim (squote # js ''hi ''))) \<noteq> is_quote (last (trim (squote # js ''hi ''))) \<and>
    unquote (squote # js ''hi '') = Inl MismatchedQuote) \<and>
   (\<not> is_quote (hd (trim (js '' hi ''))) \<and> \<not> is_quote (last (trim (js '' hi ''))) \<and>
    unquote (js '' hi '') = Inr (js ''hi''))"
proof -
  have t1: "trim (js ''  '' @ squote # js ''hi'' @ squote # js '' '') = squote # js ''hi'' @ [squote]"
    by (simp add: trim_def is_trim_ws_def chars)
  have t2: "trim (squote # js ''hi '') = squote # js ''hi''"
    by (simp add: trim_def is_trim_ws_def chars)
  have t3: "trim (js '' hi '') = js ''hi''"
    by (simp add: trim_def is_trim_ws_def chars)
  from unquote_cases [of "js ''  '' @ squote # js ''hi'' @ squote # js '' ''"]
    unquote_cases [of "squote # js ''hi ''"] unquote_cases [of "js '' hi ''"]
  show ?thesis
    unfolding t1 t2 t3 by (simp add: chars)
qed

lemma scan_nonquote:
  "\<not> is_quote c \<Longrightarrow> \<not> is_sep c \<Longrightarrow> scan None args cur (c # cs) = scan None args (cur @ [c]) cs"
  by simp

lemma scan_open:
  "is_quote c \<Longrightarrow>
     scan None args cur (c # cs) =
       scan (Some c) (if trim cur \<noteq> [] then args @ [trim cur] else args) [] cs"
  by simp

lemma scan_inside:
  "c \<noteq> q \<Longrightarrow> scan (Some q) args cur (c # cs) = scan (Some q) args (cur @ [c]) cs"
  by simp

lemmas scan_steps = scan_close scan_sep scan_nonquote scan_open scan_inside

declare scan.simps(2,3) [simp del]

lemma scan_cases_induct [case_names Nil Close Inside Open Sep Other]:
  assumes nil: "\<And>sq args cur. P sq args cur []"
    and close: "\<And>q args cur cs.
        P None (args @ [trim cur]) [] (dropWhile is_sep cs) \<Longrightarrow> P (Some q) args cur (q # cs)"
    and inside: "\<And>q args cur c cs.
        c \<noteq> q \<Longrightarrow> P (Some q) args (cur @ [c]) cs \<Longrightarrow> P (Some q) args cur (c # cs)"
    and op: "\<And>args cur c cs.
        is_quote c \<Longrightarrow> P (Some c) (if trim cur \<noteq> [] then args @ [trim cur] else args) [] cs
          \<Longrightarrow> P None args cur (c # cs)"
    and sep: "\<And>args cur c cs.
        is_sep c \<Longrightarrow> \<not> is_quote c \<Longrightarrow> P None (args @ [trim cur]) [] (dropWhile is_sep cs)
          \<Longrightarrow> P None args cur (c # cs)"
    and other: "\<And>args cur c cs.
        \<not> is_quote c \<Longrightarrow> \<not> is_sep c \<Longrightarrow> P None args (cur @ [c]) cs \<Longrightarrow> P None args cur (c # cs)"
  shows "P sq args cur rest"
proof (induction sq args cur rest rule: scan.induct)
  case (1 sq args cur)
  show ?case by (rule nil)
next
  case (2 q args cur c cs)
  show ?case
  proof (cases "c = q")
    case False
    from inside [OF False "2.IH"(2) [OF False]] show ?thesis .
  next
    case True
    have "P None (args @ [trim cur]) [] (dropWhile is_sep cs)"
    proof (cases "dropWhile is_sep cs = []")
      case e: True
      show ?thesis by (simp only: e nil)
    next
      case ne: False
      from "2.IH"(1) [OF True refl ne] show ?thesis .
    qed
    from close [OF this] True show ?thesis by simp
  qed
next
  case (3 args cur c cs)
  show ?case
  proof (cases "is_quote c")
    case True
    from op [OF True "3.IH"(1) [OF True]] show ?thesis .
  next
    case nq: False
    show ?thesis
    proof (cases "is_sep c")
      case False
      from other [OF nq False "3.IH"(3) [OF nq False]] show ?thesis .
    next
      case True
      have "P None (args @ [trim cur]) [] (dropWhile is_sep cs)"
      proof (cases "dropWhile is_sep cs = []")
        case e: True
        show ?thesis by (simp only: e nil)
      next
        case ne: False
        from "3.IH"(2) [OF nq True refl ne] show ?thesis .
      qed
      from sep [OF True nq this] show ?thesis .
    qed
  qed
qed

lemma scan_all_tokens:
  assumes P: "\<And>x. P (trim x)"
  shows "scan sq args cur rest = Inr ts \<Longrightarrow> \<forall>t\<in>set args. P t \<Longrightarrow> \<forall>t\<in>set ts. P t"
proof (induction sq args cur rest rule: scan_cases_induct)
  case (Nil sq args cur)
  then show ?case by (cases sq; cases "cur = []") (auto simp: P)
next
  case (Close q args cur cs)
  then show ?case by (simp add: scan_close P)
next
  case (Inside q args cur c cs)
  then show ?case by (simp add: scan_inside)
next
  case (Open args cur c cs)
  then show ?case by (cases "trim cur = []") (simp_all add: scan_open P)
next
  case (Sep args cur c cs)
  then show ?case by (simp add: scan_sep P)
next
  case (Other args cur c cs)
  then show ?case by (simp add: scan_nonquote)
qed

lemma scan_body:
  "q \<notin> set body \<Longrightarrow>
     scan (Some q) args cur (body @ q # rest) =
       scan None (args @ [trim (cur @ body)]) [] (dropWhile is_sep rest)"
proof (induction body arbitrary: cur)
  case Nil
  show ?case by (simp only: append_Nil append_Nil2 scan_close)
next
  case (Cons b body)
  then have "b \<noteq> q" "q \<notin> set body" by auto
  from scan_inside [OF this(1)] Cons.IH [OF this(2), of "cur @ [b]"]
  show ?case by simp
qed

lemma prepend_Inr [simp]: "prepend a (Inr ts) = Inr (a @ ts)"
  by (simp add: prepend_def)

lemma prepend_Inl [simp]: "prepend a (Inl e) = Inl e"
  by (simp add: prepend_def)

lemma scan_prepend:
  "scan sq (a @ args) cur rest = prepend a (scan sq args cur rest)"
proof (induction sq args cur rest rule: scan_cases_induct)
  case (Nil sq args cur)
  then show ?case by simp
next
  case (Close q args cur cs)
  then show ?case by (simp add: scan_close)
next
  case (Inside q args cur c cs)
  then show ?case by (simp add: scan_inside)
next
  case (Open args cur c cs)
  then show ?case by (cases "trim cur = []") (simp_all add: scan_open)
next
  case (Sep args cur c cs)
  then show ?case by (simp add: scan_sep)
next
  case (Other args cur c cs)
  then show ?case by (simp add: scan_nonquote)
qed

lemma scan_fresh: "scan None args [] rest = prepend args (scan None [] [] rest)"
  using scan_prepend [of None args "[]" "[]" rest] by simp

lemma scan_fresh_parse:
  "scan None args [] (dropWhile is_sep rest) = prepend args (parseArgs rest)"
  by (simp add: parseArgs_scan scan_fresh [of args])

text \<open>
  Claim C10: every token of a successful parse is trimmed: trimming it again changes
  nothing, and it is empty or neither begins nor ends with a whitespace character. Tokens
  from quoted segments are trimmed too: a quoted segment alone yields its trimmed content,
  as the segment \<^verbatim>\<open>' hello world '\<close> shows.
\<close>

theorem parseArgs_trimmed:
  "(parseArgs s = Inr ts \<longrightarrow> (\<forall>t\<in>set ts. trim t = t \<and> trimmed t)) \<and>
   (is_quote q \<and> q \<notin> set body \<longrightarrow> parseArgs (q # body @ [q]) = Inr [trim body]) \<and>
   parseArgs (squote # js '' hello world '' @ [squote]) = Inr [js ''hello world'']"
proof (intro conjI impI)
  assume "parseArgs s = Inr ts"
  then have "scan None [] [] (dropWhile is_sep s) = Inr ts" by (simp add: parseArgs_scan)
  from scan_all_tokens [where P = "\<lambda>t. trim t = t \<and> trimmed t", OF _ this]
  show "\<forall>t\<in>set ts. trim t = t \<and> trimmed t"
    by (simp add: trim_idem trimmed_trim)
next
  assume a: "is_quote q \<and> q \<notin> set body"
  then have "\<not> is_sep q" using sep_not_quote by blast
  then have "parseArgs (q # body @ [q]) = scan None [] [] (q # body @ [q])"
    by (simp add: parseArgs_scan)
  also from a have "\<dots> = scan (Some q) [] [] (body @ [q])"
    by (simp add: scan_open trim_def)
  also from a have "\<dots> = Inr [trim body]"
    using scan_body [of q body "[]" "[]" "[]"] by simp
  finally show "parseArgs (q # body @ [q]) = Inr [trim body]" .
next
  show "parseArgs (squote # js '' hello world '' @ [squote]) = Inr [js ''hello world'']"
    by (simp add: parseArgs_scan scan.simps(2,3) chars trim_def is_trim_ws_def)
qed

theorem parseArgs_trimmed_witness:
  "parseArgs (js '' a  b '') = Inr [js ''a'', js ''b''] \<and>
   trim (js ''a'') = js ''a'' \<and> trimmed (js ''a'') \<and>
   trim (js ''b'') = js ''b'' \<and> trimmed (js ''b'') \<and>
   is_quote dquote \<and> dquote \<notin> set (js '' x '') \<and>
   parseArgs (dquote # js '' x '' @ [dquote]) = Inr [trim (js '' x '')]"
proof -
  have p: "parseArgs (js '' a  b '') = Inr [js ''a'', js ''b'']"
    by (simp add: parseArgs_scan scan.simps(2,3) chars trim_def is_trim_ws_def)
  have q: "is_quote dquote \<and> dquote \<notin> set (js '' x '')"
    by (simp add: chars)
  from parseArgs_trimmed [of "js '' a  b ''" "[js ''a'', js ''b'']" dquote "js '' x ''"] p q
  show ?thesis by simp
qed

lemma dropWhile_append_stop:
  "\<not> is_sep c \<Longrightarrow> dropWhile is_sep (xs @ c # ys) = dropWhile is_sep xs @ c # ys"
  by (induction xs) simp_all

lemma scan_prefix:
  assumes c: "\<not> is_sep c"
  shows "quote_state sq p = None \<Longrightarrow>
    \<exists>A C. \<forall>rest. scan sq args cur (p @ c # rest) = scan None A C (c # rest)"
proof (induction sq args cur p rule: scan_cases_induct)
  case (Nil sq args cur)
  then have "sq = None" by simp
  then show ?case by auto
next
  case (Close q args cur cs)
  then have "quote_state None (dropWhile is_sep cs) = None"
    by (simp add: quote_state_skip)
  from Close.IH [OF this] show ?case
    by (simp add: scan_close dropWhile_append_stop [OF c])
next
  case (Inside q args cur x cs)
  then show ?case by (simp add: scan_inside)
next
  case (Open args cur x cs)
  then show ?case by (simp add: scan_open)
next
  case (Sep args cur x cs)
  then have "quote_state None (dropWhile is_sep cs) = None"
    by (simp add: quote_state_skip)
  from Sep.IH [OF this] Sep.hyps show ?case
    by (simp add: scan_sep dropWhile_append_stop [OF c])
next
  case (Other args cur x cs)
  then show ?case by (simp add: scan_nonquote)
qed

lemma trim_hd:
  assumes "cur \<noteq> []" and "\<not> is_trim_ws (hd cur)"
  shows "trim cur \<noteq> [] \<and> hd (trim cur) = hd cur"
proof -
  from assms obtain a as where c: "cur = a # as" and a: "\<not> is_trim_ws a"
    by (cases cur) auto
  from a c have "dropWhile is_trim_ws cur = a # as" by simp
  moreover have "dropWhile is_trim_ws (rev as @ [a]) = dropWhile is_trim_ws (rev as) @ [a]"
    using a by (simp add: dropWhile_append3)
  ultimately have "trim cur = a # rev (dropWhile is_trim_ws (rev as))"
    by (simp add: trim_def)
  with c show ?thesis by simp
qed

lemma scan_extends:
  "scan sq (a @ args) cur rest = Inr ts \<Longrightarrow> \<exists>ts'. ts = a @ ts'"
  by (cases "scan sq args cur rest") (auto simp: scan_prepend)

lemma scan_first_token:
  "scan None args cur rest = Inr ts \<Longrightarrow> cur \<noteq> [] \<Longrightarrow> \<not> is_trim_ws (hd cur) \<Longrightarrow>
     \<exists>tok ts'. ts = args @ tok # ts' \<and> tok \<noteq> [] \<and> hd tok = hd cur"
proof (induction rest arbitrary: cur)
  case Nil
  with trim_hd [OF Nil.prems(2,3)] show ?case by auto
next
  case (Cons x xs)
  from trim_hd [OF Cons.prems(2,3)] have t: "trim cur \<noteq> []" "hd (trim cur) = hd cur" by simp_all
  show ?case
  proof (cases "is_quote x")
    case True
    with Cons.prems(1) t have "scan (Some x) (args @ [trim cur]) [] xs = Inr ts"
      by (simp add: scan_open)
    then obtain ts' where "ts = (args @ [trim cur]) @ ts'"
      using scan_extends [of "Some x" "args @ [trim cur]" "[]" "[]" xs ts] by auto
    with t show ?thesis by auto
  next
    case nq: False
    show ?thesis
    proof (cases "is_sep x")
      case True
      with Cons.prems(1) have "scan None (args @ [trim cur]) [] (dropWhile is_sep xs) = Inr ts"
        by (simp add: scan_sep)
      then obtain ts' where "ts = (args @ [trim cur]) @ ts'"
        using scan_extends [of None "args @ [trim cur]" "[]" "[]" "dropWhile is_sep xs" ts] by auto
      with t show ?thesis by auto
    next
      case False
      with nq Cons.prems(1) have "scan None args (cur @ [x]) xs = Inr ts"
        by (simp add: scan_nonquote)
      from Cons.IH [OF this] Cons.prems(2,3) show ?thesis by simp
    qed
  qed
qed

lemma parseArgs_first_token:
  assumes "\<not> is_quote c" and "\<not> is_trim_ws c" and "parseArgs (c # rest) = Inr ts"
  shows "\<exists>tok ts'. ts = tok # ts' \<and> tok \<noteq> [] \<and> hd tok = c"
proof -
  from assms(2) have ns: "\<not> is_sep c" using sep_trim_ws by blast
  with assms(1,3) have "scan None [] [c] rest = Inr ts"
    by (simp add: parseArgs_scan scan_nonquote)
  from scan_first_token [OF this] assms(2) show ?thesis by simp
qed

text \<open>
  Claim C3: when a closing quote is immediately followed by a character that is neither
  space nor tab, the quoted token is complete at the closing quote and the following
  characters are tokenized as an input of their own: the tokens of the whole input are
  the tokens up to and including the quoted one, followed by the tokens of the rest. When
  that character is neither a quote char nor whitespace, the first token of the rest is an
  unquoted token that begins with it. In particular \<^verbatim>\<open>'hello'abc\<close> yields the two tokens
  \<^verbatim>\<open>hello\<close> and \<^verbatim>\<open>abc\<close>.
\<close>

theorem parseArgs_after_closing_quote:
  assumes "quote_state None pre = None" and "is_quote q" and "q \<notin> set body"
    and "\<not> is_sep c"
  shows "(\<exists>ts0. parseArgs (pre @ q # body @ [q]) = Inr (ts0 @ [trim body]) \<and>
           parseArgs (pre @ q # body @ q # c # rest) =
             (case parseArgs (c # rest) of
                Inl e \<Rightarrow> Inl e
              | Inr ts \<Rightarrow> Inr (ts0 @ trim body # ts))) \<and>
         (\<not> is_quote c \<and> \<not> is_trim_ws c \<longrightarrow>
            (\<forall>ts. parseArgs (c # rest) = Inr ts \<longrightarrow>
               (\<exists>tok ts'. ts = tok # ts' \<and> tok \<noteq> [] \<and> hd tok = c))) \<and>
         parseArgs (squote # js ''hello'' @ squote # js ''abc'') = Inr [js ''hello'', js ''abc'']"
proof -
  let ?p = "dropWhile is_sep pre"
  from assms(2) have nq: "\<not> is_sep q" using sep_not_quote by blast
  from assms(1) have "quote_state None ?p = None" by (simp add: quote_state_skip)
  from scan_prefix [OF nq this, of "[]" "[]"]
  obtain A C where AC: "\<And>rest. scan None [] [] (?p @ q # rest) = scan None A C (q # rest)"
    by blast
  let ?A = "if trim C \<noteq> [] then A @ [trim C] else A"
  have gen: "parseArgs (pre @ q # body @ q # rest') = prepend (?A @ [trim body]) (parseArgs rest')"
    for rest'
  proof -
    have "parseArgs (pre @ q # body @ q # rest') = scan None [] [] (?p @ q # body @ q # rest')"
      by (simp add: parseArgs_scan dropWhile_append_stop [OF nq])
    also have "\<dots> = scan None A C (q # body @ q # rest')" by (rule AC)
    also have "\<dots> = scan (Some q) ?A [] (body @ q # rest')"
      using assms(2) by (simp only: scan_open)
    also have "\<dots> = scan None (?A @ [trim body]) [] (dropWhile is_sep rest')"
      using scan_body [OF assms(3), of ?A "[]" rest'] by simp
    also have "\<dots> = prepend (?A @ [trim body]) (parseArgs rest')"
      by (rule scan_fresh_parse)
    finally show ?thesis .
  qed
  have p0: "parseArgs [] = Inr []" by (simp add: parseArgs_scan)
  from gen [of "[]"] p0 have "parseArgs (pre @ q # body @ [q]) = Inr (?A @ [trim body])"
    by simp
  moreover from gen [of "c # rest"]
  have "parseArgs (pre @ q # body @ q # c # rest) =
          (case parseArgs (c # rest) of Inl e \<Rightarrow> Inl e | Inr ts \<Rightarrow> Inr (?A @ trim body # ts))"
    by (simp add: prepend_def split: sum.splits)
  moreover have "parseArgs (squote # js ''hello'' @ squote # js ''abc'') = Inr [js ''hello'', js ''abc'']"
    by (simp add: parseArgs_scan scan.simps(2,3) chars trim_def is_trim_ws_def)
  moreover have "\<not> is_quote c \<and> \<not> is_trim_ws c \<longrightarrow>
      (\<forall>ts. parseArgs (c # rest) = Inr ts \<longrightarrow>
         (\<exists>tok ts'. ts = tok # ts' \<and> tok \<noteq> [] \<and> hd tok = c))"
    using parseArgs_first_token [of c rest] by blast
  ultimately show ?thesis by blast
qed

theorem parseArgs_after_closing_quote_witness:
  "quote_state None (js ''x '') = None \<and> is_quote dquote \<and> dquote \<notin> set (js ''a b'') \<and>
   \<not> is_sep (of_char CHR ''c'') \<and>
   (\<exists>ts0. parseArgs (js ''x '' @ dquote # js ''a b'' @ [dquote]) = Inr (ts0 @ [trim (js ''a b'')]) \<and>
      parseArgs (js ''x '' @ dquote # js ''a b'' @ dquote # of_char CHR ''c'' # js ''d'') =
        (case parseArgs (of_char CHR ''c'' # js ''d'') of
           Inl e \<Rightarrow> Inl e
         | Inr ts \<Rightarrow> Inr (ts0 @ trim (js ''a b'') # ts))) \<and>
   \<not> is_quote (of_char CHR ''c'') \<and> \<not> is_trim_ws (of_char CHR ''c'') \<and>
   parseArgs (of_char CHR ''c'' # js ''d'') = Inr [js ''cd''] \<and>
   (\<exists>tok ts'. [js ''cd''] = tok # ts' \<and> tok \<noteq> [] \<and> hd tok = of_char CHR ''c'')"
proof -
  have h: "quote_state None (js ''x '') = None" "is_quote dquote" "dquote \<notin> set (js ''a b'')"
    "\<not> is_sep (of_char CHR ''c'')"
    by (simp_all add: chars)
  have g: "\<not> is_quote (of_char CHR ''c'')" "\<not> is_trim_ws (of_char CHR ''c'')"
    "parseArgs (of_char CHR ''c'' # js ''d'') = Inr [js ''cd'']"
    by (simp_all add: parseArgs_scan scan.simps(2,3) chars trim_def is_trim_ws_def)
  from parseArgs_after_closing_quote [OF h, of "js ''d''"] h g show ?thesis by blast
qed

lemma scan_tokens_no_both:
  "scan sq args cur rest = Inr ts \<Longrightarrow> \<forall>t\<in>set args. no_both t \<Longrightarrow>
   (case sq of None \<Rightarrow> \<forall>c\<in>set cur. \<not> is_quote c | Some q \<Rightarrow> is_quote q \<and> q \<notin> set cur) \<Longrightarrow>
   \<forall>t\<in>set ts. no_both t"
proof (induction sq args cur rest rule: scan_cases_induct)
  case (Nil sq args cur)
  have "no_both (trim cur)" if "sq = None"
    using that Nil.prems(3) set_trim [of cur] by (auto simp: no_both_def is_quote_def)
  with Nil show ?case by (cases sq; cases "cur = []") auto
next
  case (Close q args cur cs)
  then have "no_both (trim cur)"
    using set_trim [of cur] by (auto simp: no_both_def is_quote_def)
  with Close show ?case by (simp add: scan_close)
next
  case (Inside q args cur c cs)
  then show ?case by (simp add: scan_inside)
next
  case (Open args cur c cs)
  then have "no_both (trim cur)"
    using set_trim [of cur] by (auto simp: no_both_def is_quote_def)
  with Open show ?case by (cases "trim cur = []") (simp_all add: scan_open)
next
  case (Sep args cur c cs)
  then have "no_both (trim cur)"
    using set_trim [of cur] by (auto simp: no_both_def is_quote_def)
  with Sep show ?case by (simp add: scan_sep)
next
  case (Other args cur c cs)
  then show ?case by (simp add: scan_nonquote)
qed

lemma requote_shape:
  "no_both t \<Longrightarrow> \<exists>q. is_quote q \<and> q \<notin> set t \<and> requote t = q # t @ [q]"
  by (auto simp: requote_def no_both_def is_quote_def Let_def)

lemma join_requote_head:
  "no_both u \<Longrightarrow> dropWhile is_sep (join (map requote (u # us))) = join (map requote (u # us))"
proof -
  assume "no_both u"
  then obtain q where q: "is_quote q" "requote u = q # u @ [q]"
    using requote_shape by blast
  then have "\<not> is_sep q" using sep_not_quote by blast
  with q show ?thesis by (cases us) simp_all
qed

lemma scan_rejoin:
  "\<forall>t\<in>set ts. trim t = t \<and> no_both t \<Longrightarrow>
     scan None args [] (join (map requote ts)) = Inr (args @ ts)"
proof (induction ts arbitrary: args)
  case Nil
  show ?case by simp
next
  case (Cons t ts)
  then have t: "trim t = t" "no_both t" by simp_all
  from requote_shape [OF t(2)] obtain q where
    q: "is_quote q" "q \<notin> set t" "requote t = q # t @ [q]" by blast
  have e: "trim [] = ([]::jsstring)" by (simp add: trim_def)
  show ?case
  proof (cases ts)
    case Nil
    have "scan None args [] (q # t @ [q]) = scan (Some q) args [] (t @ [q])"
      using q(1) by (simp add: scan_open e)
    also have "\<dots> = Inr (args @ [t])"
      using scan_body [OF q(2), of args "[]" "[]"] t(1) by simp
    finally show ?thesis using Nil q(3) by simp
  next
    case (Cons u us)
    with Cons.prems have u: "no_both u" by simp
    have sp: "is_sep space" by (simp add: is_sep_def)
    have "scan None args [] (q # t @ q # space # join (map requote (u # us)))
            = scan (Some q) args [] (t @ q # space # join (map requote (u # us)))"
      using q(1) by (simp add: scan_open e)
    also have "\<dots> = scan None (args @ [t]) [] (dropWhile is_sep (space # join (map requote (u # us))))"
      using scan_body [OF q(2), of args "[]" "space # join (map requote (u # us))"] t(1) by simp
    also have "\<dots> = scan None (args @ [t]) [] (join (map requote (u # us)))"
      using sp join_requote_head [OF u, of us] by simp
    also have "\<dots> = Inr ((args @ [t]) @ ts)"
      using Cons.IH [of "args @ [t]"] Cons.prems Cons by simp
    finally show ?thesis using Cons q(3) by simp
  qed
qed

text \<open>
  Claim C9: when \<open>parseArgs\<close> succeeds, re-quoting each token, joining the re-quoted
  tokens with single spaces and tokenizing the joined string succeeds with the same
  number of tokens (indeed with the same tokens).
\<close>

theorem parseArgs_rejoin:
  assumes "parseArgs s = Inr ts"
  shows "\<exists>ts'. parseArgs (join (map requote ts)) = Inr ts' \<and> length ts' = length ts \<and> ts' = ts"
proof -
  from assms have sc: "scan None [] [] (dropWhile is_sep s) = Inr ts"
    by (simp add: parseArgs_scan)
  have a: "\<forall>t\<in>set ts. trim t = t"
    using scan_all_tokens [where P = "\<lambda>t. trim t = t", OF _ sc] by (simp add: trim_idem)
  have b: "\<forall>t\<in>set ts. no_both t"
    using scan_tokens_no_both [OF sc] by simp
  have "dropWhile is_sep (join (map requote ts)) = join (map requote ts)"
  proof (cases ts)
    case Nil
    then show ?thesis by simp
  next
    case (Cons u us)
    with b have "no_both u" by simp
    from join_requote_head [OF this, of us] Cons show ?thesis by simp
  qed
  then have "parseArgs (join (map requote ts)) = scan None [] [] (join (map requote ts))"
    by (simp add: parseArgs_scan)
  also have "\<dots> = Inr ts" using scan_rejoin [of ts "[]"] a b by simp
  finally show ?thesis by simp
qed

theorem parseArgs_rejoin_witness:
  "parseArgs (js ''a  '' @ squote # js ''b c'' @ [squote]) = Inr [js ''a'', js ''b c''] \<and>
   (\<exists>ts'. parseArgs (join (map requote [js ''a'', js ''b c''])) = Inr ts' \<and>
      length ts' = length [js ''a'', js ''b c''] \<and> ts' = [js ''a'', js ''b c''])"
proof -
  have p: "parseArgs (js ''a  '' @ squote # js ''b c'' @ [squote]) = Inr [js ''a'', js ''b c'']"
    by (simp add: parseArgs_scan scan.simps(2,3) chars trim_def is_trim_ws_def)
  from parseArgs_rejoin [OF p] p show ?thesis by blast
qed

lemma quote_state_append:
  "quote_state sq (a @ b) = quote_state (quote_state sq a) b"
  by (induction sq a rule: quote_state.induct) simp_all

lemma quote_state_seps: "\<forall>c\<in>set xs. is_sep c \<Longrightarrow> quote_state None xs = None"
  by (induction xs) (simp_all add: sep_not_quote)

lemma blank_from_step: "blank_from (quote_state sq [c]) cs \<Longrightarrow> blank_from sq (c # cs)"
proof -
  assume "blank_from (quote_state sq [c]) cs"
  then obtain pre q body rest where
    h: "cs = pre @ q # body @ q # rest" "quote_state (quote_state sq [c]) pre = None"
       "is_quote q" "q \<notin> set body" "trim body = []"
    unfolding blank_from_def by blast
  from h(2) have "quote_state sq (c # pre) = None"
    using quote_state_append [of sq "[c]" pre] by simp
  with h(1,3,4,5) show ?thesis
    unfolding blank_from_def by (metis append_Cons)
qed

lemma blank_from_skip: "blank_from None (dropWhile is_sep cs) \<Longrightarrow> blank_from None cs"
proof -
  assume "blank_from None (dropWhile is_sep cs)"
  then obtain pre q body rest where
    h: "dropWhile is_sep cs = pre @ q # body @ q # rest" "quote_state None pre = None"
       "is_quote q" "q \<notin> set body" "trim body = []"
    unfolding blank_from_def by blast
  have "quote_state None (takeWhile is_sep cs) = None"
    by (rule quote_state_seps) (auto dest: set_takeWhileD)
  with h(2) have "quote_state None (takeWhile is_sep cs @ pre) = None"
    by (simp add: quote_state_append)
  moreover have "cs = (takeWhile is_sep cs @ pre) @ q # body @ q # rest"
    using h(1) takeWhile_dropWhile_id [of is_sep cs] by (metis append.assoc)
  ultimately show ?thesis
    unfolding blank_from_def using h(3,4,5) by blast
qed

lemma trim_no_ws: "\<forall>c\<in>set t. \<not> is_trim_ws c \<Longrightarrow> trim t = t"
  by (rule trim_trimmed) (auto simp: trimmed_def)

lemma trim_Nil_all_ws: "trim b = [] \<Longrightarrow> \<forall>c\<in>set b. is_trim_ws c"
proof -
  assume "trim b = []"
  then have "dropWhile is_trim_ws (rev (dropWhile is_trim_ws b)) = []"
    by (simp add: trim_def)
  then have all: "\<forall>c\<in>set (dropWhile is_trim_ws b). is_trim_ws c"
    by simp
  have "dropWhile is_trim_ws b = []"
  proof (rule ccontr)
    assume ne: "dropWhile is_trim_ws b \<noteq> []"
    then have "\<not> is_trim_ws (hd (dropWhile is_trim_ws b))" by (rule hd_dropWhile)
    moreover from ne have "hd (dropWhile is_trim_ws b) \<in> set (dropWhile is_trim_ws b)"
      by (rule hd_in_set)
    ultimately show False using all by blast
  qed
  then show ?thesis by simp
qed

lemma fresh_state_inv:
  "None = None \<longrightarrow> (\<forall>c\<in>set ([]::jsstring). \<not> is_trim_ws c) \<and>
     (([]::jsstring) = [] \<longrightarrow> dropWhile is_sep cs = [] \<or> \<not> is_sep (hd (dropWhile is_sep cs)))"
  using hd_dropWhile [of is_sep cs] by (auto simp del: dropWhile_eq_Nil_conv)

lemma scan_empty_token:
  "scan sq args cur rest = Inr ts \<Longrightarrow> [] \<in> set ts \<Longrightarrow> only_sep_ws (cur @ rest) \<Longrightarrow>
   (sq = None \<longrightarrow> (\<forall>c\<in>set cur. \<not> is_trim_ws c) \<and> (cur = [] \<longrightarrow> rest = [] \<or> \<not> is_sep (hd rest))) \<Longrightarrow>
   [] \<in> set args \<or>
   (\<exists>q body rest'. sq = Some q \<and> rest = body @ q # rest' \<and> q \<notin> set body \<and> trim (cur @ body) = []) \<or>
   blank_from sq rest"
proof (induction sq args cur rest rule: scan_cases_induct)
  case (Nil sq args cur)
  then have sq: "sq = None" by (cases sq) simp_all
  with Nil.prems(4) have "trim cur = cur" by (simp add: trim_no_ws)
  with Nil.prems(1,2) sq show ?case by (cases "cur = []") auto
next
  case (Close q args cur cs)
  from Close.prems(1) have s: "scan None (args @ [trim cur]) [] (dropWhile is_sep cs) = Inr ts"
    by (simp add: scan_close)
  from Close.prems(3) have o: "only_sep_ws ([] @ dropWhile is_sep cs)"
    by (auto simp: only_sep_ws_def dest: set_dropWhileD)
  note i = fresh_state_inv [of cs]
  from Close.IH [OF s Close.prems(2) o i]
  consider "[] \<in> set args" | "trim cur = []" | "blank_from None (dropWhile is_sep cs)"
    by auto
  then show ?case
  proof cases
    case 1
    then show ?thesis by simp
  next
    case 2
    then have "q # cs = [] @ q # cs \<and> q \<notin> set [] \<and> trim (cur @ []) = []" by simp
    then show ?thesis by blast
  next
    case 3
    then have "blank_from None cs" by (rule blank_from_skip)
    then have "blank_from (Some q) (q # cs)"
      using blank_from_step [of "Some q" q cs] by simp
    then show ?thesis by simp
  qed
next
  case (Inside q args cur c cs)
  from Inside.prems(1) Inside.hyps have s: "scan (Some q) args (cur @ [c]) cs = Inr ts"
    by (simp add: scan_inside)
  from Inside.prems(3) have o: "only_sep_ws ((cur @ [c]) @ cs)"
    by (simp add: only_sep_ws_def)
  from Inside.IH [OF s Inside.prems(2) o]
  consider "[] \<in> set args"
    | body rest' where "cs = body @ q # rest'" "q \<notin> set body" "trim ((cur @ [c]) @ body) = []"
    | "blank_from (Some q) cs"
    by auto
  then show ?case
  proof cases
    case 1
    then show ?thesis by simp
  next
    case 2
    with Inside.hyps have "c # cs = (c # body) @ q # rest' \<and> q \<notin> set (c # body) \<and>
        trim (cur @ c # body) = []" by auto
    then show ?thesis by blast
  next
    case 3
    then have "blank_from (Some q) (c # cs)"
      using blank_from_step [of "Some q" c cs] Inside.hyps by simp
    then show ?thesis by simp
  qed
next
  case (Open args cur c cs)
  let ?args = "if trim cur \<noteq> [] then args @ [trim cur] else args"
  from Open.prems(1) Open.hyps have s: "scan (Some c) ?args [] cs = Inr ts"
    by (simp add: scan_open)
  from Open.prems(3) have o: "only_sep_ws ([] @ cs)"
    by (simp add: only_sep_ws_def)
  from Open.IH [OF s Open.prems(2) o]
  consider "[] \<in> set ?args"
    | body rest' where "cs = body @ c # rest'" "c \<notin> set body" "trim body = []"
    | "blank_from (Some c) cs"
    by auto
  then show ?case
  proof cases
    case 1
    then have "[] \<in> set args" by (cases "trim cur = []") auto
    then show ?thesis by simp
  next
    case 2
    with Open.hyps have "c # cs = [] @ c # body @ c # rest' \<and> quote_state None [] = None \<and>
        is_quote c \<and> c \<notin> set body \<and> trim body = []" by simp
    then have "blank_from None (c # cs)" unfolding blank_from_def by blast
    then show ?thesis by simp
  next
    case 3
    then have "blank_from None (c # cs)"
      using blank_from_step [of None c cs] Open.hyps by simp
    then show ?thesis by simp
  qed
next
  case (Sep args cur c cs)
  from Sep.prems(1) Sep.hyps have s: "scan None (args @ [trim cur]) [] (dropWhile is_sep cs) = Inr ts"
    by (simp add: scan_sep)
  from Sep.prems(3) have o: "only_sep_ws ([] @ dropWhile is_sep cs)"
    by (auto simp: only_sep_ws_def dest: set_dropWhileD)
  note i = fresh_state_inv [of cs]
  from Sep.prems(4) Sep.hyps have "cur \<noteq> []" by auto
  moreover from Sep.prems(4) have "trim cur = cur" by (simp add: trim_no_ws)
  ultimately have ne: "trim cur \<noteq> []" by simp
  from Sep.IH [OF s Sep.prems(2) o i] ne
  consider "[] \<in> set args" | "blank_from None (dropWhile is_sep cs)"
    by auto
  then show ?case
  proof cases
    case 1
    then show ?thesis by simp
  next
    case 2
    then have "blank_from None cs" by (rule blank_from_skip)
    then have "blank_from None (c # cs)"
      using blank_from_step [of None c cs] Sep.hyps by simp
    then show ?thesis by simp
  qed
next
  case (Other args cur c cs)
  from Other.prems(1) Other.hyps have s: "scan None args (cur @ [c]) cs = Inr ts"
    by (simp add: scan_nonquote)
  from Other.prems(3) have o: "only_sep_ws ((cur @ [c]) @ cs)"
    by (simp add: only_sep_ws_def)
  from Other.prems(3) Other.hyps have "\<not> is_trim_ws c"
    by (auto simp: only_sep_ws_def)
  with Other.prems(4) have i: "None = None \<longrightarrow> (\<forall>x\<in>set (cur @ [c]). \<not> is_trim_ws x) \<and>
        (cur @ [c] = [] \<longrightarrow> cs = [] \<or> \<not> is_sep (hd cs))"
    by auto
  from Other.IH [OF s Other.prems(2) o i]
  consider "[] \<in> set args" | "blank_from None cs"
    by auto
  then show ?case
  proof cases
    case 1
    then show ?thesis by simp
  next
    case 2
    then have "blank_from None (c # cs)"
      using blank_from_step [of None c cs] Other.hyps by simp
    then show ?thesis by simp
  qed
qed

lemma empty_token_origin:
  assumes "parseArgs s = Inr ts" and "[] \<in> set ts" and "only_sep_ws s"
  shows "\<exists>pre q body rest. s = pre @ q # body @ q # rest \<and> quote_state None pre = None \<and>
           is_quote q \<and> q \<notin> set body \<and> (\<forall>c\<in>set body. is_sep c)"
proof -
  from assms(1) have s: "scan None [] [] (dropWhile is_sep s) = Inr ts"
    by (simp add: parseArgs_scan)
  from assms(3) have o: "only_sep_ws ([] @ dropWhile is_sep s)"
    by (auto simp: only_sep_ws_def dest: set_dropWhileD)
  note i = fresh_state_inv [of s]
  from scan_empty_token [OF s assms(2) o i] have "blank_from None (dropWhile is_sep s)"
    by simp
  then have "blank_from None s" by (rule blank_from_skip)
  then obtain pre q body rest where
    h: "s = pre @ q # body @ q # rest" "quote_state None pre = None"
       "is_quote q" "q \<notin> set body" "trim body = []"
    unfolding blank_from_def by blast
  from h(5) have "\<forall>c\<in>set body. is_trim_ws c" by (rule trim_Nil_all_ws)
  moreover from h(1) have "set body \<subseteq> set s" by auto
  ultimately have "\<forall>c\<in>set body. is_sep c"
    using assms(3) unfolding only_sep_ws_def by blast
  with h(1-4) show ?thesis by blast
qed

lemma parseArgs_sep_only: "\<forall>c\<in>set s. is_sep c \<Longrightarrow> parseArgs s = Inr []"
proof -
  assume "\<forall>c\<in>set s. is_sep c"
  then have "dropWhile is_sep s = []" by simp
  then show ?thesis by (simp only: parseArgs_scan scan_None_Nil)
qed

text \<open>
  Claim C8 as stated fails: a quoted segment that holds a single space is not empty, yet
  its token is trimmed before it is pushed and the output is one empty-string token.
\<close>

theorem parseArgs_quoted_space_counterexample:
  "parseArgs [squote, space, squote] = Inr [[]] \<and>
   \<not> has_empty_quoted None [squote, space, squote]"
  by (simp add: parseArgs_scan scan.simps(2,3) chars trim_def is_trim_ws_def)

text \<open>
  Claim C8, amended: on an input whose only whitespace characters are space and tab and
  on which \<open>parseArgs\<close> succeeds, an empty-string token appears in the output only where
  the input contains a quoted segment that is empty or consists of spaces and tabs only;
  an input of separators only yields no token, so the empty string, one space and two
  spaces yield the empty sequence, and two adjacent double quotes yield one empty token.
\<close>

theorem parseArgs_empty_token:
  "(parseArgs s = Inr ts \<and> [] \<in> set ts \<and> only_sep_ws s \<longrightarrow>
      (\<exists>pre q body rest. s = pre @ q # body @ q # rest \<and> quote_state None pre = None \<and>
         is_quote q \<and> q \<notin> set body \<and> (\<forall>c\<in>set body. is_sep c))) \<and>
   ((\<forall>c\<in>set s. is_sep c) \<longrightarrow> parseArgs s = Inr []) \<and>
   parseArgs [] = Inr [] \<and> parseArgs (js '' '') = Inr [] \<and> parseArgs (js ''  '') = Inr [] \<and>
   parseArgs [dquote, dquote] = Inr [[]]"
proof (intro conjI impI)
  assume "parseArgs s = Inr ts \<and> [] \<in> set ts \<and> only_sep_ws s"
  then show "\<exists>pre q body rest. s = pre @ q # body @ q # rest \<and> quote_state None pre = None \<and>
         is_quote q \<and> q \<notin> set body \<and> (\<forall>c\<in>set body. is_sep c)"
    using empty_token_origin [of s ts] by blast
next
  assume "\<forall>c\<in>set s. is_sep c"
  then show "parseArgs s = Inr []" by (rule parseArgs_sep_only)
next
  show "parseArgs [] = Inr []" by (simp add: parseArgs_scan)
next
  show "parseArgs (js '' '') = Inr []" by (simp add: parseArgs_scan chars)
next
  show "parseArgs (js ''  '') = Inr []" by (simp add: parseArgs_scan chars)
next
  show "parseArgs [dquote, dquote] = Inr [[]]"
    by (simp add: parseArgs_scan scan.simps(2,3) chars trim_def)
qed

theorem parseArgs_empty_token_witness:
  "parseArgs (js ''a '' @ [dquote, space, dquote]) = Inr [js ''a'', []] \<and>
   [] \<in> set [js ''a'', []] \<and> only_sep_ws (js ''a '' @ [dquote, space, dquote]) \<and>
   (\<exists>pre q body rest. js ''a '' @ [dquote, space, dquote] = pre @ q # body @ q # rest \<and>
      quote_state None pre = None \<and> is_quote q \<and> q \<notin> set body \<and> (\<forall>c\<in>set body. is_sep c)) \<and>
   list_all is_sep (js ''  '') \<and> parseArgs (js ''  '') = Inr []"
proof -
  have p: "parseArgs (js ''a '' @ [dquote, space, dquote]) = Inr [js ''a'', []]"
    by (simp add: parseArgs_scan scan.simps(2,3) chars trim_def is_trim_ws_def)
  have o: "only_sep_ws (js ''a '' @ [dquote, space, dquote])"
    by (simp add: only_sep_ws_def chars is_trim_ws_def)
  have e: "[] \<in> set [js ''a'', []]" by simp
  have s: "\<forall>c\<in>set (js ''  ''). is_sep c" by (simp add: chars)
  from parseArgs_empty_token [of "js ''a '' @ [dquote, space, dquote]" "[js ''a'', []]"]
    parseArgs_empty_token [of "js ''  ''"] p o e s
  show ?thesis unfolding list_all_iff by blast
qed

section \<open>Properties of the encoder\<close>

lemma js_Nil_iff [simp]: "js s = [] \<longleftrightarrow> s = []"
  by (simp add: js_def)

lemma bufCap_val: "bufCap = 65536"
  by (simp add: bufCap_def)

lemma read_til_full_None:
  "read_til_full st fd buf bs = (None, st', n) \<Longrightarrow> handles st fd = Some h \<Longrightarrow> bs \<le> bufCap \<Longrightarrow>
   \<exists>k. n = bs + k \<and> n \<le> bufCap \<and> k \<le> length (content h) - position h \<and>
       handles st' = (handles st)(fd \<mapsto> h\<lparr>position := position h + k\<rparr>) \<and>
       files st' = files st \<and> next_fd st' = next_fd st \<and>
       (n < bufCap \<longrightarrow> length (content h) \<le> position h + k)"
proof (induction st fd buf bs arbitrary: h rule: read_til_full.induct)
  case (1 st fd buf bs)
  show ?case
  proof (cases "bs < bufCap")
    case False
    with "1.prems" have "st' = st" "n = bs" "bs = bufCap"
      by (simp_all add: read_til_full.simps [of st fd buf bs])
    with "1.prems"(2) show ?thesis
      by (intro exI [of _ 0]) (simp add: map_upd_triv)
  next
    case True
    show ?thesis
    proof (cases "readSync st fd buf bs (bufCap - bs)")
      case (Inl e)
      with True "1.prems" show ?thesis by (simp add: read_til_full.simps [of st fd buf bs])
    next
      case (Inr x)
      then obtain n1 st1 where
        x: "readSync st fd buf bs (bufCap - bs) = Inr (n1, st1)"
        by (cases x) auto
      let ?p = "position h" and ?d = "content h"
      from readSync_Inr [OF x] "1.prems"(2) have
        f: "n1 \<le> bufCap - bs" "n1 \<le> length ?d - ?p"
           "n1 = 0 \<longrightarrow> bufCap - bs = 0 \<or> length ?d \<le> ?p"
           "handles st1 = (handles st)(fd \<mapsto> h\<lparr>position := ?p + n1\<rparr>)"
           "files st1 = files st" "next_fd st1 = next_fd st"
        by auto
      show ?thesis
      proof (cases "n1 = 0")
        case z: True
        with True x "1.prems"(1) have e: "st' = st1" "n = bs"
          by (simp_all add: read_til_full.simps [of st fd buf bs])
        from z f(3) True have "length ?d \<le> ?p" by simp
        with e f z True show ?thesis
          by (intro exI [of _ 0]) simp
      next
        case nz: False
        with True x "1.prems"(1) have rec: "read_til_full st1 fd buf (bs + n1) = (None, st', n)"
          by (simp add: read_til_full.simps [of st fd buf bs])
        let ?h1 = "h\<lparr>position := ?p + n1\<rparr>"
        from f(4) have h1: "handles st1 fd = Some ?h1" by simp
        from f(1) True have le: "bs + n1 \<le> bufCap" by simp
        from "1.IH" [OF True x refl nz rec h1 le]
        obtain k where kk:
          "n = bs + n1 + k \<and> n \<le> bufCap \<and> k \<le> length (content ?h1) - position ?h1 \<and>
           handles st' = (handles st1)(fd \<mapsto> ?h1\<lparr>position := position ?h1 + k\<rparr>) \<and>
           files st' = files st1 \<and> next_fd st' = next_fd st1 \<and>
           (n < bufCap \<longrightarrow> length (content ?h1) \<le> position ?h1 + k)"
          by blast
        then have
          k: "n = bs + n1 + k" "n \<le> bufCap" "k \<le> length ?d - (?p + n1)"
             "handles st' = (handles st1)(fd \<mapsto> h\<lparr>position := ?p + n1 + k\<rparr>)"
             "files st' = files st1" "next_fd st' = next_fd st1"
             "n < bufCap \<longrightarrow> length ?d \<le> ?p + n1 + k"
          by auto
        from k(4) f(4) have hs: "handles st' = (handles st)(fd \<mapsto> h\<lparr>position := ?p + (n1 + k)\<rparr>)"
          by (simp add: add.assoc)
        from k(3) f(2) have a1: "n1 + k \<le> length ?d - ?p" by arith
        from k(7) have a2: "n < bufCap \<longrightarrow> length ?d \<le> ?p + (n1 + k)"
          by (simp add: add.assoc)
        from k(1,2) k(5,6) f(5,6) hs a1 a2 show ?thesis
          by (intro exI [of _ "n1 + k"]) (simp add: add.assoc)
      qed
    qed
  qed
qed

lemma chunk_sizes_short: "n < c \<Longrightarrow> chunk_sizes c n = [n]"
  by (simp add: chunk_sizes.simps [of c n])

lemma chunk_sizes_long:
  "0 < c \<Longrightarrow> c \<le> n \<Longrightarrow> chunk_sizes c n = c # chunk_sizes c (n - c)"
  by (simp add: chunk_sizes.simps [of c n])

lemma sum_chunk_sizes: "sum_list (chunk_sizes c n) = n"
proof (induction c n rule: chunk_sizes.induct)
  case (1 c n)
  show ?case
  proof (cases "c = 0 \<or> n < c")
    case True
    then show ?thesis by (simp add: chunk_sizes.simps [of c n])
  next
    case False
    with "1.IH" show ?thesis by (simp add: chunk_sizes.simps [of c n])
  qed
qed

lemma stream_file_None:
  "stream_file st req fd buf bs = (None, st', req') \<Longrightarrow> bs = 0 \<Longrightarrow>
   handles st fd = Some h \<Longrightarrow> position h \<le> length (content h) \<Longrightarrow>
   events req' = events req @
     map (\<lambda>n. Write (BufRef buf 0 n)) (chunk_sizes bufCap (length (content h) - position h)) \<and>
   headers req' = headers req \<and>
   handles st' = (handles st)(fd \<mapsto> h\<lparr>position := length (content h)\<rparr>) \<and>
   files st' = files st \<and> next_fd st' = next_fd st"
proof (induction st req fd buf bs arbitrary: h rule: stream_file.induct)
  case (1 st req fd buf bs)
  let ?p = "position h" and ?d = "content h"
  obtain r st1 n where rt: "read_til_full st fd buf bs = (r, st1, n)"
    by (cases "read_til_full st fd buf bs") auto
  show ?case
  proof (cases r)
    case (Some e)
    with rt "1.prems"(1) show ?thesis
      by (simp add: stream_file.simps [of st req fd buf bs])
  next
    case None
    with rt have rt': "read_til_full st fd buf bs = (None, st1, n)" by simp
    from "1.prems"(2) have "bs \<le> bufCap" by simp
    from read_til_full_None [OF rt' "1.prems"(3) this] "1.prems"(2)
    have f: "n \<le> bufCap" "n \<le> length ?d - ?p"
      "handles st1 = (handles st)(fd \<mapsto> h\<lparr>position := ?p + n\<rparr>)"
      "files st1 = files st" "next_fd st1 = next_fd st"
      "n < bufCap \<longrightarrow> length ?d \<le> ?p + n"
      by auto
    show ?thesis
    proof (cases "n = bufCap")
      case full: True
      with rt' "1.prems"(1)
      have rec: "stream_file st1 (httpReq_write req (BufRef buf 0 bufCap)) fd buf 0 = (None, st', req')"
        by (simp add: stream_file.simps [of st req fd buf bs])
      let ?h1 = "h\<lparr>position := ?p + n\<rparr>"
      from f(3) have h1: "handles st1 fd = Some ?h1" by simp
      from f(2) "1.prems"(4) have p1: "position ?h1 \<le> length (content ?h1)" by simp
      from "1.IH" [OF rt' [symmetric] refl refl full rec refl h1 p1]
      have ih: "events req' = events (httpReq_write req (BufRef buf 0 bufCap)) @
                  map (\<lambda>n. Write (BufRef buf 0 n)) (chunk_sizes bufCap (length ?d - (?p + n)))"
        "headers req' = headers (httpReq_write req (BufRef buf 0 bufCap))"
        "handles st' = (handles st1)(fd \<mapsto> ?h1\<lparr>position := length ?d\<rparr>)"
        "files st' = files st1" "next_fd st' = next_fd st1"
        by auto
      have c0: "0 < bufCap" by (simp add: bufCap_val)
      from f(2) full have "bufCap \<le> length ?d - ?p" by simp
      from chunk_sizes_long [OF c0 this] full
      have "chunk_sizes bufCap (length ?d - ?p) =
              bufCap # chunk_sizes bufCap (length ?d - (?p + n))"
        by simp
      with ih f show ?thesis
        by (simp add: httpReq_write_def)
    next
      case part: False
      with rt' "1.prems"(1)
      have e: "st' = st1" "req' = httpReq_write req (BufRef buf 0 n)"
        by (auto simp: stream_file.simps [of st req fd buf bs])
      from part f(1) have lt: "n < bufCap" by simp
      with f(6) f(2) "1.prems"(4) have n: "n = length ?d - ?p" "?p + n = length ?d" by simp_all
      from n lt have "chunk_sizes bufCap (length ?d - ?p) = [n]"
        by (simp add: chunk_sizes_short)
      with e f n show ?thesis
        by (simp add: httpReq_write_def)
    qed
  qed
qed

lemma openSync_Inr:
  "openSync st path = Inr (fd, st1) \<Longrightarrow>
     \<exists>d. files st path = Some d \<and> fd = next_fd st \<and>
       handles st1 = (handles st)(fd \<mapsto> \<lparr>content = d, position = 0\<rparr>) \<and>
       files st1 = files st \<and> next_fd st1 = Suc (next_fd st) \<and> schedule st1 = schedule st \<and>
       memory st1 = memory st"
  by (auto simp: openSync_def split: option.splits)

lemma openSync_Inl: "openSync st path = Inl e \<Longrightarrow> e = FileOpenError \<and> files st path = None"
  by (auto simp: openSync_def split: option.splits)

lemma closeSync_Inr:
  "closeSync st fd = Inr st3 \<Longrightarrow>
     handles st3 = (handles st)(fd := None) \<and> files st3 = files st \<and>
     next_fd st3 = next_fd st \<and> schedule st3 = schedule st \<and> memory st3 = memory st"
  by (auto simp: closeSync_def split: option.splits)

lemma closeSync_open: "handles st fd = Some h \<Longrightarrow> \<exists>st3. closeSync st fd = Inr st3"
  by (simp add: closeSync_def)

lemma readSync_Inl:
  "readSync st fd buf off len = Inl e \<Longrightarrow> handles st fd = Some h \<Longrightarrow>
   memory st buf = Some block \<Longrightarrow>
     e = FileReadError \<and> (\<exists>os. schedule st = ReadFails # os)"
  by (auto simp: readSync_def Let_def split: list.splits read_outcome.splits)

lemma read_til_full_any:
  "read_til_full st fd buf bs = (r, st', n) \<Longrightarrow> handles st fd = Some h \<Longrightarrow>
   memory st buf = Some block \<Longrightarrow>
     dom (handles st') = dom (handles st) \<and> next_fd st' = next_fd st \<and> files st' = files st \<and>
     (\<exists>h'. handles st' fd = Some h') \<and> (\<exists>block'. memory st' buf = Some block') \<and>
     set (schedule st') \<subseteq> set (schedule st) \<and>
     (r = None \<or> r = Some FileReadError \<and> ReadFails \<in> set (schedule st))"
proof (induction st fd buf bs arbitrary: h block rule: read_til_full.induct)
  case (1 st fd buf bs)
  show ?case
  proof (cases "bs < bufCap")
    case False
    with "1.prems" show ?thesis by (auto simp: read_til_full.simps [of st fd buf bs])
  next
    case True
    show ?thesis
    proof (cases "readSync st fd buf bs (bufCap - bs)")
      case (Inl e)
      with "1.prems"(2,3) have "e = FileReadError" "ReadFails \<in> set (schedule st)"
        using readSync_Inl by fastforce+
      with Inl True "1.prems" show ?thesis
        by (auto simp: read_til_full.simps [of st fd buf bs])
    next
      case (Inr x)
      then obtain n1 st1 where
        x: "readSync st fd buf bs (bufCap - bs) = Inr (n1, st1)"
        by (cases x) auto
      from readSync_Inr [OF x] "1.prems"(2,3) obtain block1 where
        f: "handles st1 = (handles st)(fd \<mapsto> h\<lparr>position := position h + n1\<rparr>)"
           "files st1 = files st" "next_fd st1 = next_fd st" "schedule st1 = tl (schedule st)"
           "memory st1 = (memory st)(buf \<mapsto> block1)"
        by auto
      from f(4) have sch: "set (schedule st1) \<subseteq> set (schedule st)"
        by (cases "schedule st") auto
      from f(1) "1.prems"(2) have d: "dom (handles st1) = dom (handles st)" by auto
      from f(1) have h1: "handles st1 fd = Some (h\<lparr>position := position h + n1\<rparr>)" by simp
      from f(5) have m1: "memory st1 buf = Some block1" by simp
      show ?thesis
      proof (cases "n1 = 0")
        case z: True
        with True x "1.prems"(1) have "st' = st1" "r = None"
          by (auto simp: read_til_full.simps [of st fd buf bs])
        with d f(2,3) h1 m1 sch show ?thesis by simp
      next
        case nz: False
        with True x "1.prems"(1) have "read_til_full st1 fd buf (bs + n1) = (r, st', n)"
          by (simp add: read_til_full.simps [of st fd buf bs])
        from "1.IH" [OF True x refl nz this h1 m1] d f(2,3) sch show ?thesis by auto
      qed
    qed
  qed
qed

lemma stream_file_any:
  "stream_file st req fd buf bs = (r, st', req') \<Longrightarrow> handles st fd = Some h \<Longrightarrow>
   memory st buf = Some block \<Longrightarrow>
     dom (handles st') = dom (handles st) \<and> next_fd st' = next_fd st \<and> files st' = files st \<and>
     (\<exists>h'. handles st' fd = Some h') \<and> (\<exists>block'. memory st' buf = Some block') \<and>
     set (schedule st') \<subseteq> set (schedule st) \<and>
     (r = None \<or> r = Some FileReadError \<and> ReadFails \<in> set (schedule st))"
proof (induction st req fd buf bs arbitrary: h block rule: stream_file.induct)
  case (1 st req fd buf bs)
  obtain r1 st1 n where rt: "read_til_full st fd buf bs = (r1, st1, n)"
    by (cases "read_til_full st fd buf bs") auto
  from read_til_full_any [OF rt "1.prems"(2,3)] obtain h1 block1 where
    a: "dom (handles st1) = dom (handles st)" "next_fd st1 = next_fd st" "files st1 = files st"
       "handles st1 fd = Some h1" "memory st1 buf = Some block1"
       "set (schedule st1) \<subseteq> set (schedule st)"
       "r1 = None \<or> r1 = Some FileReadError \<and> ReadFails \<in> set (schedule st)"
    by blast
  show ?case
  proof (cases r1)
    case (Some e)
    with rt "1.prems"(1) a show ?thesis
      by (auto simp: stream_file.simps [of st req fd buf bs])
  next
    case None
    with rt have rt': "read_til_full st fd buf bs = (None, st1, n)" by simp
    show ?thesis
    proof (cases "n = bufCap")
      case True
      with rt' "1.prems"(1)
      have "stream_file st1 (httpReq_write req (BufRef buf 0 bufCap)) fd buf 0 = (r, st', req')"
        by (simp add: stream_file.simps [of st req fd buf bs])
      from "1.IH" [OF rt' [symmetric] refl refl True this a(4,5)] a show ?thesis by auto
    next
      case False
      with rt' "1.prems"(1) have "st' = st1" "r = None"
        by (auto simp: stream_file.simps [of st req fd buf bs])
      with a show ?thesis by simp
    qed
  qed
qed

lemma part_events_file:
  "file_upload v = Inr (Some p) \<Longrightarrow> fs p = Some d \<Longrightarrow>
     part_events b buf fs (k, v) =
       [Write (Text (js ''--'' @ b) Ascii), Write (Text (file_part_header k p) Utf8)] @
       map (\<lambda>n. Write (BufRef buf 0 n)) (chunk_sizes bufCap (length d)) @
       [Write (Text crlf Ascii)]"
  by (simp add: part_events_def)

lemma part_events_plain:
  "file_upload v = Inr None \<Longrightarrow>
     part_events b buf fs (k, v) =
       [Write (Text (js ''--'' @ b) Ascii), Write (Text (plain_part_header k) Utf8),
        Write (Text (string_form v @ crlf) Utf8)]"
  by (simp add: part_events_def)

lemma write_fields_None:
  "write_fields b st req buf data = (None, st', req') \<Longrightarrow>
     events req' = events req @ concat (map (part_events b buf (files st)) data) \<and>
     headers req' = headers req \<and> files st' = files st \<and>
     (fs_ok st \<longrightarrow> handles st' = handles st \<and> fs_ok st')"
proof (induction data arbitrary: st req)
  case Nil
  then show ?case by simp
next
  case (Cons kv rest)
  obtain key val where kv: "kv = (key, val)" by (cases kv)
  let ?req1 = "httpReq_write req (Text (js ''--'' @ b) Ascii)"
  show ?case
  proof (cases "file_upload val")
    case (Inl e)
    with Cons.prems(1) kv show ?thesis by simp
  next
    case (Inr up)
    show ?thesis
    proof (cases up)
      case None
      let ?req3 = "httpReq_write (httpReq_write ?req1 (Text (plain_part_header key) Utf8))
                     (Text (string_form val @ crlf) Utf8)"
      from None Inr Cons.prems(1) kv
      have rec: "write_fields b st ?req3 buf rest = (None, st', req')"
        by (simp add: Let_def)
      from Cons.IH [OF rec] None Inr kv show ?thesis
        by (simp add: part_events_plain httpReq_write_def)
    next
      case (Some p)
      let ?req2 = "httpReq_write ?req1 (Text (file_part_header key p) Utf8)"
      show ?thesis
      proof (cases "openSync st p")
        case oe: (Inl e)
        with Some Inr Cons.prems(1) kv show ?thesis by (simp add: Let_def)
      next
        case oo: (Inr x)
        then obtain fd st1 where op: "openSync st p = Inr (fd, st1)" by (cases x) auto
        from openSync_Inr [OF op] obtain d where
          o: "files st p = Some d" "fd = next_fd st"
             "handles st1 = (handles st)(fd \<mapsto> \<lparr>content = d, position = 0\<rparr>)"
             "files st1 = files st" "next_fd st1 = Suc (next_fd st)"
          by blast
        let ?h = "\<lparr>content = d, position = 0\<rparr>"
        from o(3) have h: "handles st1 fd = Some ?h" by simp
        obtain r st2 req3 where sf: "stream_file st1 ?req2 fd buf 0 = (r, st2, req3)"
          by (cases "stream_file st1 ?req2 fd buf 0") auto
        show ?thesis
        proof (cases r)
          case se: (Some e)
          with sf op Some Inr Cons.prems(1) kv show ?thesis by (simp add: Let_def)
        next
          case sn: None
          with sf have sf': "stream_file st1 ?req2 fd buf 0 = (None, st2, req3)" by simp
          have "position ?h \<le> length (content ?h)" by simp
          from stream_file_None [OF sf' refl h this]
          have s: "events req3 = events ?req2 @
                     map (\<lambda>n. Write (BufRef buf 0 n)) (chunk_sizes bufCap (length d))"
            "headers req3 = headers ?req2"
            "handles st2 = (handles st1)(fd \<mapsto> ?h\<lparr>position := length d\<rparr>)"
            "files st2 = files st1" "next_fd st2 = next_fd st1"
            by auto
          from s(3) have "handles st2 fd = Some (?h\<lparr>position := length d\<rparr>)" by simp
          from closeSync_open [OF this] obtain st3 where cl: "closeSync st2 fd = Inr st3" by blast
          from closeSync_Inr [OF cl] have
            c: "handles st3 = (handles st2)(fd := None)" "files st3 = files st2"
               "next_fd st3 = next_fd st2"
            by auto
          let ?req4 = "httpReq_write req3 (Text crlf Ascii)"
          from sf' cl op Some Inr Cons.prems(1) kv
          have rec: "write_fields b st3 ?req4 buf rest = (None, st', req')"
            by (simp add: Let_def)
          from Cons.IH [OF rec] have
            ih: "events req' = events ?req4 @ concat (map (part_events b buf (files st3)) rest)"
              "headers req' = headers ?req4" "files st' = files st3"
              "fs_ok st3 \<longrightarrow> handles st' = handles st3 \<and> fs_ok st'"
            by auto
          have fs3: "files st3 = files st" using c(2) s(4) o(4) by simp
          have ev: "events req' =
                      events req @ concat (map (part_events b buf (files st)) (kv # rest))"
            using ih(1) s(1) fs3 kv Inr Some o(1)
              part_events_file [of val p "files st" d b buf key]
            by (simp add: httpReq_write_def)
          have hd: "headers req' = headers req"
            using ih(2) s(2) by (simp add: httpReq_write_def)
          have ok: "fs_ok st \<longrightarrow> handles st' = handles st \<and> fs_ok st'"
          proof
            assume ok: "fs_ok st"
            then have nf: "handles st fd = None"
              using o(2) by (auto simp: fs_ok_def)
            with c(1) s(3) o(3) have h3: "handles st3 = handles st" by auto
            with ok c(3) s(5) o(5) have "fs_ok st3"
              by (force simp: fs_ok_def dom_def less_Suc_eq)
            with ih(4) h3 show "handles st' = handles st \<and> fs_ok st'" by simp
          qed
          from ev hd ih(3) fs3 ok show ?thesis by simp
        qed
      qed
    qed
  qed
qed

lemma upload_step:
  assumes op: "openSync st p = Inr (fd, st1)"
    and sf: "stream_file st1 req2 fd buf 0 = (None, st2, req3)"
    and mb: "memory st buf = Some block"
  shows "\<exists>st3 block3. closeSync st2 fd = Inr st3 \<and> files st3 = files st \<and>
           memory st3 buf = Some block3 \<and>
           set (schedule st3) \<subseteq> set (schedule st) \<and>
           (fs_ok st \<longrightarrow> handles st3 = handles st \<and> fs_ok st3)"
proof -
  from openSync_Inr [OF op] obtain d where
    o: "files st p = Some d" "fd = next_fd st"
       "handles st1 = (handles st)(fd \<mapsto> \<lparr>content = d, position = 0\<rparr>)"
       "files st1 = files st" "next_fd st1 = Suc (next_fd st)" "schedule st1 = schedule st"
       "memory st1 = memory st"
    by blast
  let ?h = "\<lparr>content = d, position = 0\<rparr>"
  from o(3) have h: "handles st1 fd = Some ?h" by simp
  from o(7) mb have m1: "memory st1 buf = Some block" by simp
  from stream_file_any [OF sf h m1] obtain h2 block2 where
    s: "dom (handles st2) = dom (handles st1)" "next_fd st2 = next_fd st1"
       "files st2 = files st1" "handles st2 fd = Some h2" "memory st2 buf = Some block2"
       "set (schedule st2) \<subseteq> set (schedule st1)"
    by blast
  have "position ?h \<le> length (content ?h)" by simp
  from stream_file_None [OF sf refl h this]
  have s3: "handles st2 = (handles st1)(fd \<mapsto> ?h\<lparr>position := length d\<rparr>)" by auto
  from closeSync_open [OF s(4)] obtain st3 where cl: "closeSync st2 fd = Inr st3" by blast
  from closeSync_Inr [OF cl] have
    c: "handles st3 = (handles st2)(fd := None)" "files st3 = files st2"
       "next_fd st3 = next_fd st2" "schedule st3 = schedule st2" "memory st3 = memory st2"
    by auto
  have ok: "fs_ok st \<longrightarrow> handles st3 = handles st \<and> fs_ok st3"
  proof
    assume ok: "fs_ok st"
    then have nf: "handles st fd = None"
      using o(2) by (auto simp: fs_ok_def)
    with c(1) s3 o(3) have h3: "handles st3 = handles st" by auto
    with ok c(3) s(2) o(5) have "fs_ok st3"
      by (force simp: fs_ok_def dom_def less_Suc_eq)
    with h3 show "handles st3 = handles st \<and> fs_ok st3" by simp
  qed
  from cl c(2,4,5) s(3,5,6) o(4,6) ok show ?thesis by simp
qed

lemma file_upload_Inl: "file_upload v = Inl e \<Longrightarrow> e = TypeError"
  by (auto simp: file_upload_def split: field_value.splits option.splits)

lemma write_fields_Some:
  "write_fields b st req buf data = (Some e, st', req') \<Longrightarrow> memory st buf = Some block \<Longrightarrow>
   fs_ok st \<Longrightarrow>
     (e = FileReadError \<and>
        (\<exists>fd. handles st fd = None \<and> handles st' fd \<noteq> None \<and>
           dom (handles st') = insert fd (dom (handles st)))) \<or>
     ((e = TypeError \<or> e = FileOpenError) \<and> handles st' = handles st)"
proof (induction data arbitrary: st req block)
  case Nil
  then show ?case by simp
next
  case (Cons kv rest)
  obtain key val where kv: "kv = (key, val)" by (cases kv)
  let ?req1 = "httpReq_write req (Text (js ''--'' @ b) Ascii)"
  show ?case
  proof (cases "file_upload val")
    case (Inl e1)
    with Cons.prems(1) kv file_upload_Inl [OF Inl] show ?thesis by auto
  next
    case (Inr up)
    show ?thesis
    proof (cases up)
      case None
      let ?req3 = "httpReq_write (httpReq_write ?req1 (Text (plain_part_header key) Utf8))
                     (Text (string_form val @ crlf) Utf8)"
      from None Inr Cons.prems(1) kv
      have rec: "write_fields b st ?req3 buf rest = (Some e, st', req')"
        by (simp add: Let_def)
      from Cons.IH [OF rec Cons.prems(2,3)] show ?thesis .
    next
      case (Some p)
      let ?req2 = "httpReq_write ?req1 (Text (file_part_header key p) Utf8)"
      show ?thesis
      proof (cases "openSync st p")
        case oe: (Inl e1)
        with Some Inr Cons.prems(1) kv openSync_Inl [OF oe] show ?thesis
          by (auto simp: Let_def)
      next
        case oo: (Inr x)
        then obtain fd st1 where op: "openSync st p = Inr (fd, st1)" by (cases x) auto
        from openSync_Inr [OF op] obtain d where
          o: "fd = next_fd st"
             "handles st1 = (handles st)(fd \<mapsto> \<lparr>content = d, position = 0\<rparr>)"
             "memory st1 = memory st"
          by blast
        from o(2) have h: "handles st1 fd = Some \<lparr>content = d, position = 0\<rparr>" by simp
        from o(3) Cons.prems(2) have m1: "memory st1 buf = Some block" by simp
        from Cons.prems(3) o(1) have nf: "handles st fd = None"
          by (auto simp: fs_ok_def)
        from o(2) have d1: "dom (handles st1) = insert fd (dom (handles st))" by auto
        obtain r st2 req3 where sf: "stream_file st1 ?req2 fd buf 0 = (r, st2, req3)"
          by (cases "stream_file st1 ?req2 fd buf 0") auto
        from stream_file_any [OF sf h m1] obtain h2 where
          s: "dom (handles st2) = dom (handles st1)" "handles st2 fd = Some h2"
             "r = None \<or> r = Some FileReadError"
          by blast
        show ?thesis
        proof (cases r)
          case se: (Some e2)
          with s(3) have e2: "e2 = FileReadError" by simp
          from se sf op Some Inr Cons.prems(1) kv have "e = e2" "st' = st2"
            by (simp_all add: Let_def)
          with e2 s(1,2) d1 nf show ?thesis by auto
        next
          case sn: None
          with sf have sf': "stream_file st1 ?req2 fd buf 0 = (None, st2, req3)" by simp
          from upload_step [OF op sf' Cons.prems(2)] Cons.prems(3) obtain st3 block3 where
            u: "closeSync st2 fd = Inr st3" "handles st3 = handles st" "fs_ok st3"
               "memory st3 buf = Some block3"
            by blast
          let ?req4 = "httpReq_write req3 (Text crlf Ascii)"
          from sf' u(1) op Some Inr Cons.prems(1) kv
          have rec: "write_fields b st3 ?req4 buf rest = (Some e, st', req')"
            by (simp add: Let_def)
          from Cons.IH [OF rec u(4) u(3)] u(2) show ?thesis by simp
        qed
      qed
    qed
  qed
qed

lemma write_fields_total:
  "list_all (\<lambda>kv. readable (files st) (snd kv)) data \<Longrightarrow> ReadFails \<notin> set (schedule st) \<Longrightarrow>
   memory st buf = Some block \<Longrightarrow>
     \<exists>st' req'. write_fields b st req buf data = (None, st', req')"
proof (induction data arbitrary: st req block)
  case Nil
  show ?case by simp
next
  case (Cons kv rest)
  obtain key val where kv: "kv = (key, val)" by (cases kv)
  from Cons.prems(1) kv have rd: "readable (files st) val"
    and rr: "list_all (\<lambda>kv. readable (files st) (snd kv)) rest"
    by simp_all
  let ?req1 = "httpReq_write req (Text (js ''--'' @ b) Ascii)"
  show ?case
  proof (cases "file_upload val")
    case (Inl e1)
    with rd show ?thesis by (simp add: readable_def)
  next
    case (Inr up)
    show ?thesis
    proof (cases up)
      case None
      let ?req3 = "httpReq_write (httpReq_write ?req1 (Text (plain_part_header key) Utf8))
                     (Text (string_form val @ crlf) Utf8)"
      from Cons.IH [OF rr Cons.prems(2,3), of ?req3] None Inr kv show ?thesis
        by (simp add: Let_def)
    next
      case (Some p)
      let ?req2 = "httpReq_write ?req1 (Text (file_part_header key p) Utf8)"
      from rd Inr Some obtain d where d: "files st p = Some d"
        by (auto simp: readable_def)
      then obtain fd st1 where op: "openSync st p = Inr (fd, st1)"
        by (simp add: openSync_def)
      from openSync_Inr [OF op] d have
        o: "handles st1 = (handles st)(fd \<mapsto> \<lparr>content = d, position = 0\<rparr>)"
           "schedule st1 = schedule st" "memory st1 = memory st"
        by auto
      from o(1) have h: "handles st1 fd = Some \<lparr>content = d, position = 0\<rparr>" by simp
      from o(3) Cons.prems(3) have m1: "memory st1 buf = Some block" by simp
      obtain r st2 req3 where sf: "stream_file st1 ?req2 fd buf 0 = (r, st2, req3)"
        by (cases "stream_file st1 ?req2 fd buf 0") auto
      from stream_file_any [OF sf h m1] o(2) Cons.prems(2) have "r = None" by auto
      with sf have sf': "stream_file st1 ?req2 fd buf 0 = (None, st2, req3)" by simp
      from upload_step [OF op sf' Cons.prems(3)] obtain st3 block3 where
        u: "closeSync st2 fd = Inr st3" "files st3 = files st"
           "set (schedule st3) \<subseteq> set (schedule st)" "memory st3 buf = Some block3"
        by blast
      from rr u(2) have rr3: "list_all (\<lambda>kv. readable (files st3) (snd kv)) rest" by simp
      from u(3) Cons.prems(2) have nf: "ReadFails \<notin> set (schedule st3)" by auto
      from Cons.IH [OF rr3 nf u(4), of "httpReq_write req3 (Text crlf Ascii)"]
        sf' u(1) op Some Inr kv
      show ?thesis by (simp add: Let_def)
    qed
  qed
qed

lemma new_Buffer_eq:
  "new_Buffer st mem n = (buf, st0) \<Longrightarrow>
     buf = next_addr st \<and> files st0 = files st \<and> handles st0 = handles st \<and>
     next_fd st0 = next_fd st \<and> schedule st0 = schedule st \<and>
     (\<exists>block. memory st0 buf = Some block)"
  by (auto simp: new_Buffer_def)

lemma writeFormData_None:
  assumes "writeFormData bb mem st req data = (None, st', req')"
  shows "events req' =
           events req @ concat (map (part_events (toString_hex bb) (next_addr st) (files st)) data) @
           [End (terminator (toString_hex bb))] \<and>
         files st' = files st \<and> (fs_ok st \<longrightarrow> handles st' = handles st)"
proof -
  let ?b = "toString_hex bb"
  let ?req0 = "httpReq_setHeader req (js ''Content-Type'') (js ''multipart/form-data; boundary='' @ ?b)"
  obtain buf st0 where nb: "new_Buffer st mem bufCap = (buf, st0)"
    by (cases "new_Buffer st mem bufCap") auto
  from new_Buffer_eq [OF nb] have
    n: "buf = next_addr st" "files st0 = files st" "handles st0 = handles st"
       "next_fd st0 = next_fd st"
    by auto
  obtain r st1 req1 where w: "write_fields ?b st0 ?req0 buf data = (r, st1, req1)"
    by (cases "write_fields ?b st0 ?req0 buf data") auto
  with assms nb have r: "r = None" and e: "st' = st1" "req' = httpReq_end req1 (terminator ?b)"
    by (cases r; simp add: writeFormData_def Let_def terminator_def)+
  from w r have w': "write_fields ?b st0 ?req0 buf data = (None, st1, req1)" by simp
  from n(3,4) have ok: "fs_ok st0 = fs_ok st" by (simp add: fs_ok_def)
  from write_fields_None [OF w'] e n ok show ?thesis
    by (simp add: httpReq_end_def httpReq_setHeader_def)
qed

lemmas run_defs = writeFormData_def example_fs_def example_request_def example_data_def
  two_files_fs_def two_files_data_def
  file_upload_def openSync_def closeSync_def stream_file.simps read_til_full.simps readSync_def
  new_Buffer_def bufCap_val httpReq_write_def httpReq_end_def httpReq_setHeader_def Let_def

lemma wire_append: "wire enc m (xs @ ys) = wire enc m xs @ wire enc m ys"
  by (simp add: wire_def)

lemma chunk_sizes_cases:
  "chunk_sizes bufCap 0 = [0] \<and>
   chunk_sizes bufCap (bufCap - 1) = [bufCap - 1] \<and>
   chunk_sizes bufCap bufCap = [bufCap, 0] \<and>
   chunk_sizes bufCap (bufCap + 1) = [bufCap, 1]"
  by (simp add: chunk_sizes.simps [of bufCap] chunk_sizes.simps [of 65536] bufCap_val)

lemma writeFormData_total:
  assumes "list_all (\<lambda>kv. readable (files st) (snd kv)) data" and "ReadFails \<notin> set (schedule st)"
  shows "\<exists>st' req'. writeFormData bb mem st req data = (None, st', req')"
proof -
  let ?b = "toString_hex bb"
  let ?req0 = "httpReq_setHeader req (js ''Content-Type'') (js ''multipart/form-data; boundary='' @ ?b)"
  obtain buf st0 where nb: "new_Buffer st mem bufCap = (buf, st0)"
    by (cases "new_Buffer st mem bufCap") auto
  from new_Buffer_eq [OF nb] obtain block where
    n: "files st0 = files st" "schedule st0 = schedule st" "memory st0 buf = Some block"
    by auto
  from assms n have a: "list_all (\<lambda>kv. readable (files st0) (snd kv)) data"
    "ReadFails \<notin> set (schedule st0)"
    by simp_all
  from write_fields_total [OF a n(3), of ?b ?req0]
  obtain st1 req1 where "write_fields ?b st0 ?req0 buf data = (None, st1, req1)"
    by blast
  with nb show ?thesis by (simp add: writeFormData_def Let_def)
qed

lemma writeFormData_Some:
  assumes "writeFormData bb mem st req data = (Some e, st', req')" and "fs_ok st"
  shows "(e = FileReadError \<and>
            (\<exists>fd. handles st fd = None \<and> handles st' fd \<noteq> None \<and>
               dom (handles st') = insert fd (dom (handles st)))) \<or>
         ((e = TypeError \<or> e = FileOpenError) \<and> handles st' = handles st)"
proof -
  let ?b = "toString_hex bb"
  let ?req0 = "httpReq_setHeader req (js ''Content-Type'') (js ''multipart/form-data; boundary='' @ ?b)"
  obtain buf st0 where nb: "new_Buffer st mem bufCap = (buf, st0)"
    by (cases "new_Buffer st mem bufCap") auto
  from new_Buffer_eq [OF nb] obtain block where
    n: "handles st0 = handles st" "next_fd st0 = next_fd st" "memory st0 buf = Some block"
    by auto
  from n(1,2) assms(2) have ok: "fs_ok st0" by (simp add: fs_ok_def)
  obtain r st1 req1 where w: "write_fields ?b st0 ?req0 buf data = (r, st1, req1)"
    by (cases "write_fields ?b st0 ?req0 buf data") auto
  with assms(1) nb have "r = Some e" "st' = st1"
    by (cases r; simp add: writeFormData_def Let_def)+
  with w have "write_fields ?b st0 ?req0 buf data = (Some e, st', req1)" by simp
  from write_fields_Some [OF this n(3) ok] n(1) show ?thesis by simp
qed

text \<open>
  Claim C1: \<open>writeFormData\<close> hands the body of a file field to the sink as Buffers of the
  sizes the specification gives, \<open>bufCap\<close> for every full buffer and the fill count for the
  partial one, but every one of them is the one block of memory that the next
  \<^verbatim>\<open>fs.readSync\<close> overwrites, and the sink keeps the reference, not the bytes. For the
  mapping of the specification's example and a file of \<open>bufCap + 1\<close> bytes, 65536 bytes 1
  and then one byte 2, the call returns normally and the body is the block at address 0
  twice, with the lengths 65536 and 1; after the call the block starts with the byte 2 of
  the second read, so the sink sends \<open>bufCap + 1\<close> bytes that begin with 2 and are not the
  bytes of the file. In the same way the body of a file field is overwritten by the file
  of a later field: with the files \<open>[1, 2, 3]\<close> and \<open>[9, 8]\<close> the body of the first field is
  sent as \<open>[9, 8, 3]\<close>.
\<close>

theorem writeFormData_body_overwritten:
  "fst (writeFormData [0xAB, 0x01] [] (example_fs (replicate 65536 1 @ [2]) [])
          example_request example_data) = None \<and>
   files (example_fs (replicate 65536 1 @ [2]) []) (js ''/tmp/x.bin'') =
     Some (replicate 65536 1 @ [2]) \<and>
   events (snd (snd (writeFormData [0xAB, 0x01] [] (example_fs (replicate 65536 1 @ [2]) [])
          example_request example_data))) =
     [Write (Text (js ''--'' @ toString_hex [0xAB, 0x01]) Ascii),
      Write (Text (plain_part_header (js ''a'')) Utf8),
      Write (Text (js ''1'' @ crlf) Utf8),
      Write (Text (js ''--'' @ toString_hex [0xAB, 0x01]) Ascii),
      Write (Text (file_part_header (js ''file'') (js ''/tmp/x.bin'')) Utf8),
      Write (BufRef 0 0 65536),
      Write (BufRef 0 0 1),
      Write (Text crlf Ascii),
      End (terminator (toString_hex [0xAB, 0x01]))] \<and>
   memory (fst (snd (writeFormData [0xAB, 0x01] [] (example_fs (replicate 65536 1 @ [2]) [])
          example_request example_data))) 0 = Some (2 # replicate 65535 1) \<and>
   wire enc
     (memory (fst (snd (writeFormData [0xAB, 0x01] [] (example_fs (replicate 65536 1 @ [2]) [])
          example_request example_data))))
     [Write (BufRef 0 0 65536), Write (BufRef 0 0 1)] = 2 # replicate 65535 1 @ [2] \<and>
   2 # replicate 65535 1 @ [2] \<noteq> replicate 65536 (1 :: byte) @ [2] \<and>
   fst (writeFormData [0xAB, 0x01] [] two_files_fs example_request two_files_data) = None \<and>
   events (snd (snd (writeFormData [0xAB, 0x01] [] two_files_fs example_request
          two_files_data))) =
     [Write (Text (js ''--'' @ toString_hex [0xAB, 0x01]) Ascii),
      Write (Text (file_part_header (js ''x'') (js ''/tmp/x.bin'')) Utf8),
      Write (BufRef 0 0 3),
      Write (Text crlf Ascii),
      Write (Text (js ''--'' @ toString_hex [0xAB, 0x01]) Ascii),
      Write (Text (file_part_header (js ''y'') (js ''/tmp/y.bin'')) Utf8),
      Write (BufRef 0 0 2),
      Write (Text crlf Ascii),
      End (terminator (toString_hex [0xAB, 0x01]))] \<and>
   files two_files_fs (js ''/tmp/x.bin'') = Some [1, 2, 3] \<and>
   wire enc
     (memory (fst (snd (writeFormData [0xAB, 0x01] [] two_files_fs example_request
          two_files_data))))
     [Write (BufRef 0 0 3)] = [9, 8, 3]"
proof -
  let ?fs = "example_fs (replicate 65536 1 @ [2]) []"
  let ?R = "writeFormData [0xAB, 0x01] [] ?fs example_request example_data"
  let ?R2 = "writeFormData [0xAB, 0x01] [] two_files_fs example_request two_files_data"
  have run: "?R =
    (None,
     \<lparr>files = [js ''/tmp/x.bin'' \<mapsto> replicate 65536 1 @ [2]], handles = Map.empty,
      next_fd = 4, schedule = [], memory = [0 \<mapsto> 2 # replicate 65535 1], next_addr = 1\<rparr>,
     \<lparr>headers = [js ''Content-Type'' \<mapsto>
                   js ''multipart/form-data; boundary='' @ toString_hex [0xAB, 0x01]],
      events =
        [Write (Text (js ''--'' @ toString_hex [0xAB, 0x01]) Ascii),
         Write (Text (plain_part_header (js ''a'')) Utf8),
         Write (Text (js ''1'' @ crlf) Utf8),
         Write (Text (js ''--'' @ toString_hex [0xAB, 0x01]) Ascii),
         Write (Text (file_part_header (js ''file'') (js ''/tmp/x.bin'')) Utf8),
         Write (BufRef 0 0 65536),
         Write (BufRef 0 0 1),
         Write (Text crlf Ascii),
         End (terminator (toString_hex [0xAB, 0x01]))]\<rparr>)"
    by (simp add: run_defs terminator_def string_form_def)
  have f: "files ?fs (js ''/tmp/x.bin'') = Some (replicate 65536 1 @ [2])"
    by (simp add: example_fs_def)
  have m: "memory (fst (snd ?R)) 0 = Some (2 # replicate 65535 1)"
    by (simp add: run)
  have w: "wire enc (memory (fst (snd ?R))) [Write (BufRef 0 0 65536), Write (BufRef 0 0 1)] =
             2 # replicate 65535 1 @ [2]"
    by (simp add: run wire_def chunk_bytes_def event_chunk_def)
  have "hd (2 # replicate 65535 1 @ [2]) \<noteq> hd (replicate 65536 (1 :: byte) @ [2])"
    by (simp add: hd_append)
  then have ne: "2 # replicate 65535 1 @ [2] \<noteq> replicate 65536 (1 :: byte) @ [2]"
    by metis
  have run2: "?R2 =
    (None,
     \<lparr>files = [js ''/tmp/x.bin'' \<mapsto> [1, 2, 3], js ''/tmp/y.bin'' \<mapsto> [9, 8]],
      handles = Map.empty, next_fd = 5, schedule = [],
      memory = [0 \<mapsto> [9, 8, 3] @ replicate 65533 0], next_addr = 1\<rparr>,
     \<lparr>headers = [js ''Content-Type'' \<mapsto>
                   js ''multipart/form-data; boundary='' @ toString_hex [0xAB, 0x01]],
      events =
        [Write (Text (js ''--'' @ toString_hex [0xAB, 0x01]) Ascii),
         Write (Text (file_part_header (js ''x'') (js ''/tmp/x.bin'')) Utf8),
         Write (BufRef 0 0 3),
         Write (Text crlf Ascii),
         Write (Text (js ''--'' @ toString_hex [0xAB, 0x01]) Ascii),
         Write (Text (file_part_header (js ''y'') (js ''/tmp/y.bin'')) Utf8),
         Write (BufRef 0 0 2),
         Write (Text crlf Ascii),
         End (terminator (toString_hex [0xAB, 0x01]))]\<rparr>)"
    by (simp add: run_defs terminator_def js_def)
  have f2: "files two_files_fs (js ''/tmp/x.bin'') = Some [1, 2, 3]"
    by (simp add: two_files_fs_def js_def)
  have w2: "wire enc (memory (fst (snd ?R2))) [Write (BufRef 0 0 3)] = [9, 8, 3]"
    by (simp add: run2 wire_def chunk_bytes_def event_chunk_def)
  from f m w ne f2 w2 show ?thesis
    by (simp add: run run2)
qed

lemma part_events_writes:
  "\<exists>cs. part_events b buf fs kv = map Write cs \<and> terminator b \<notin> set cs"
proof -
  have t1: "terminator b \<noteq> Text (js ''--'' @ b) Ascii"
    by (simp add: terminator_def crlf_def)
  have t2: "terminator b \<noteq> Text crlf Ascii"
    by (simp add: terminator_def crlf_def js_def)
  show ?thesis
  proof (cases "file_upload (snd kv)")
    case (Inl e)
    then have "part_events b buf fs kv = map Write
        [Text (js ''--'' @ b) Ascii, Text (plain_part_header (fst kv)) Utf8,
         Text (string_form (snd kv) @ crlf) Utf8]"
      by (simp add: part_events_def)
    moreover have "terminator b \<notin> set [Text (js ''--'' @ b) Ascii, Text (plain_part_header (fst kv)) Utf8,
         Text (string_form (snd kv) @ crlf) Utf8]"
      using t1 by (simp add: terminator_def)
    ultimately show ?thesis by blast
  next
    case (Inr up)
    show ?thesis
    proof (cases up)
      case None
      with Inr have "part_events b buf fs kv = map Write
          [Text (js ''--'' @ b) Ascii, Text (plain_part_header (fst kv)) Utf8,
           Text (string_form (snd kv) @ crlf) Utf8]"
        by (simp add: part_events_def)
      moreover have "terminator b \<notin> set [Text (js ''--'' @ b) Ascii, Text (plain_part_header (fst kv)) Utf8,
           Text (string_form (snd kv) @ crlf) Utf8]"
        using t1 by (simp add: terminator_def)
      ultimately show ?thesis by blast
    next
      case (Some p)
      let ?n = "case fs p of Some d \<Rightarrow> length d | None \<Rightarrow> 0"
      let ?cs = "[Text (js ''--'' @ b) Ascii, Text (file_part_header (fst kv) p) Utf8] @
                 map (BufRef buf 0) (chunk_sizes bufCap ?n) @ [Text crlf Ascii]"
      from Some Inr have "part_events b buf fs kv = map Write ?cs"
        by (simp add: part_events_def comp_def)
      moreover have "terminator b \<notin> set ?cs"
        using t1 t2 by (auto simp: terminator_def)
      ultimately show ?thesis by blast
    qed
  qed
qed

lemma parts_writes:
  "\<exists>cs. concat (map (part_events b buf fs) data) = map Write cs \<and> terminator b \<notin> set cs"
proof (induction data)
  case Nil
  show ?case by simp
next
  case (Cons kv data)
  from part_events_writes [of b buf fs kv] obtain c1 where
    c1: "part_events b buf fs kv = map Write c1" "terminator b \<notin> set c1" by blast
  from Cons obtain c2 where
    c2: "concat (map (part_events b buf fs) data) = map Write c2" "terminator b \<notin> set c2" by blast
  from c1 c2 have "concat (map (part_events b buf fs) (kv # data)) = map Write (c1 @ c2) \<and>
      terminator b \<notin> set (c1 @ c2)" by simp
  then show ?case by blast
qed

text \<open>
  Claim C7: when \<open>writeFormData\<close> returns normally, the events it adds to the sink are
  writes, none of them the terminator chunk, followed by exactly one \<open>End\<close> event that
  carries the terminator; so the byte stream ends with the terminator. For the empty
  mapping the terminator is the only event. The call returns normally whenever every field
  is readable and no read fails.
\<close>

theorem writeFormData_terminator:
  "(writeFormData bb mem st req data = (None, st', req') \<longrightarrow>
      (\<exists>cs. events req' = events req @ map Write cs @ [End (terminator (toString_hex bb))] \<and>
         map Write cs =
           concat (map (part_events (toString_hex bb) (next_addr st) (files st)) data) \<and>
         terminator (toString_hex bb) \<notin> set cs \<and>
         wire enc (memory st') (map Write cs @ [End (terminator (toString_hex bb))]) =
           wire enc (memory st') (map Write cs) @
           enc Ascii (js ''--'' @ toString_hex bb @ js ''--'' @ crlf))) \<and>
   writeFormData bb mem st req [] =
     (None, snd (new_Buffer st mem bufCap),
      (httpReq_setHeader req (js ''Content-Type'')
         (js ''multipart/form-data; boundary='' @ toString_hex bb))
       \<lparr>events := events req @ [End (terminator (toString_hex bb))]\<rparr>) \<and>
   (list_all (\<lambda>kv. readable (files st) (snd kv)) data \<and> ReadFails \<notin> set (schedule st) \<longrightarrow>
      (\<exists>st' req'. writeFormData bb mem st req data = (None, st', req')))"
proof (intro conjI impI)
  assume a: "writeFormData bb mem st req data = (None, st', req')"
  let ?b = "toString_hex bb"
  from parts_writes [of ?b "next_addr st" "files st" data] obtain cs where
    cs: "concat (map (part_events ?b (next_addr st) (files st)) data) = map Write cs"
      "terminator ?b \<notin> set cs"
    by blast
  have w: "wire enc (memory st') (map Write cs @ [End (terminator ?b)]) =
      wire enc (memory st') (map Write cs) @ enc Ascii (js ''--'' @ ?b @ js ''--'' @ crlf)"
    by (simp add: wire_def chunk_bytes_def event_chunk_def terminator_def)
  from writeFormData_None [OF a] cs w
  show "\<exists>cs. events req' = events req @ map Write cs @ [End (terminator ?b)] \<and>
         map Write cs = concat (map (part_events ?b (next_addr st) (files st)) data) \<and>
         terminator ?b \<notin> set cs \<and>
         wire enc (memory st') (map Write cs @ [End (terminator ?b)]) =
           wire enc (memory st') (map Write cs) @
           enc Ascii (js ''--'' @ ?b @ js ''--'' @ crlf)"
    by auto
next
  show "writeFormData bb mem st req [] =
     (None, snd (new_Buffer st mem bufCap),
      (httpReq_setHeader req (js ''Content-Type'')
         (js ''multipart/form-data; boundary='' @ toString_hex bb))
       \<lparr>events := events req @ [End (terminator (toString_hex bb))]\<rparr>)"
    by (simp add: writeFormData_def Let_def httpReq_end_def httpReq_setHeader_def terminator_def
        new_Buffer_def)
next
  assume "list_all (\<lambda>kv. readable (files st) (snd kv)) data \<and> ReadFails \<notin> set (schedule st)"
  then show "\<exists>st' req'. writeFormData bb mem st req data = (None, st', req')"
    using writeFormData_total by blast
qed

theorem writeFormData_terminator_witness:
  "fst (writeFormData [0xAB, 0x01] [] (example_fs [1, 2, 3] [ReadAtMost 1]) example_request
          example_data) = None \<and>
   (\<exists>cs. events (snd (snd (writeFormData [0xAB, 0x01] [] (example_fs [1, 2, 3] [ReadAtMost 1])
             example_request example_data))) =
        events example_request @ map Write cs @ [End (terminator (toString_hex [0xAB, 0x01]))] \<and>
        terminator (toString_hex [0xAB, 0x01]) \<notin> set cs) \<and>
   list_all (\<lambda>kv. readable (files (example_fs [1, 2, 3] [ReadAtMost 1])) (snd kv)) example_data \<and>
   ReadFails \<notin> set (schedule (example_fs [1, 2, 3] [ReadAtMost 1])) \<and>
   (\<exists>st' req'. writeFormData [0xAB, 0x01] [] (example_fs [1, 2, 3] [ReadAtMost 1]) example_request
        example_data = (None, st', req'))"
proof -
  let ?fs = "example_fs [1, 2, 3] [ReadAtMost 1]"
  let ?R = "writeFormData [0xAB, 0x01] [] ?fs example_request example_data"
  have r: "fst ?R = None" by (simp add: run_defs)
  then have R: "?R = (None, fst (snd ?R), snd (snd ?R))"
    by (metis prod.collapse)
  have rd: "list_all (\<lambda>kv. readable (files ?fs) (snd kv)) example_data"
    by (simp add: example_data_def example_fs_def readable_def file_upload_def js_def)
  have nf: "ReadFails \<notin> set (schedule ?fs)" by (simp add: example_fs_def)
  from writeFormData_terminator [of "[0xAB, 0x01]" "[]" ?fs example_request example_data
      "fst (snd ?R)" "snd (snd ?R)"] r R rd nf
  show ?thesis by blast
qed

text \<open>
  Claim C4 as stated fails: \<^verbatim>\<open>fs.closeSync(fd)\<close> follows the loop without a guard, so a read
  that throws inside the loop leaves the function before the descriptor is closed. Here the
  first read delivers one byte and the second fails: the call ends with the read error and
  descriptor 3, which the call opened, is still open at position 1.
\<close>

theorem writeFormData_read_failure_counterexample:
  "fst (writeFormData [0xAB, 0x01] [] (example_fs [1, 2, 3] [ReadAtMost 0, ReadFails])
          example_request example_data) = Some FileReadError \<and>
   handles (example_fs [1, 2, 3] [ReadAtMost 0, ReadFails]) 3 = None \<and>
   handles (fst (snd (writeFormData [0xAB, 0x01] [] (example_fs [1, 2, 3] [ReadAtMost 0, ReadFails])
          example_request example_data))) 3 = Some \<lparr>content = [1, 2, 3], position = 1\<rparr>"
  by (simp add: run_defs)

text \<open>
  Claim C4, amended: when \<open>writeFormData\<close> returns normally, every descriptor it opened has
  been closed: the table of open descriptors is as before the call. When a read inside the
  streaming loop fails, the error propagates and the descriptor of that field stays open.
\<close>

theorem writeFormData_descriptors:
  "fs_ok st \<and> writeFormData bb mem st req data = (r, st', req') \<longrightarrow>
     (r = None \<longrightarrow> handles st' = handles st) \<and>
     (r = Some FileReadError \<longrightarrow>
        (\<exists>fd. handles st fd = None \<and> handles st' fd \<noteq> None \<and>
           dom (handles st') = insert fd (dom (handles st))))"
proof (intro impI conjI)
  assume a: "fs_ok st \<and> writeFormData bb mem st req data = (r, st', req')" and "r = None"
  then have "writeFormData bb mem st req data = (None, st', req')" by simp
  from writeFormData_None [OF this] a show "handles st' = handles st" by simp
next
  assume a: "fs_ok st \<and> writeFormData bb mem st req data = (r, st', req')"
    and "r = Some FileReadError"
  then have "writeFormData bb mem st req data = (Some FileReadError, st', req')" by simp
  from writeFormData_Some [OF this] a
  show "\<exists>fd. handles st fd = None \<and> handles st' fd \<noteq> None \<and>
           dom (handles st') = insert fd (dom (handles st))"
    by simp
qed

theorem writeFormData_descriptors_witness:
  "fs_ok (example_fs [1, 2, 3] [ReadAtMost 1]) \<and>
   fst (writeFormData [0xAB, 0x01] [] (example_fs [1, 2, 3] [ReadAtMost 1]) example_request
          example_data) = None \<and>
   handles (fst (snd (writeFormData [0xAB, 0x01] [] (example_fs [1, 2, 3] [ReadAtMost 1])
          example_request example_data))) = handles (example_fs [1, 2, 3] [ReadAtMost 1]) \<and>
   fs_ok (example_fs [1, 2, 3] [ReadFails]) \<and>
   fst (writeFormData [0xAB, 0x01] [] (example_fs [1, 2, 3] [ReadFails]) example_request
          example_data) = Some FileReadError \<and>
   (\<exists>fd. handles (example_fs [1, 2, 3] [ReadFails]) fd = None \<and>
      handles (fst (snd (writeFormData [0xAB, 0x01] [] (example_fs [1, 2, 3] [ReadFails])
          example_request example_data))) fd \<noteq> None \<and>
      dom (handles (fst (snd (writeFormData [0xAB, 0x01] [] (example_fs [1, 2, 3] [ReadFails])
          example_request example_data)))) =
        insert fd (dom (handles (example_fs [1, 2, 3] [ReadFails]))))"
proof -
  let ?fs1 = "example_fs [1, 2, 3] [ReadAtMost 1]"
  let ?R1 = "writeFormData [0xAB, 0x01] [] ?fs1 example_request example_data"
  let ?fs2 = "example_fs [1, 2, 3] [ReadFails]"
  let ?R2 = "writeFormData [0xAB, 0x01] [] ?fs2 example_request example_data"
  have ok: "fs_ok ?fs1" "fs_ok ?fs2" by (simp_all add: fs_ok_def example_fs_def)
  have r1: "fst ?R1 = None" by (simp add: run_defs)
  then have R1: "?R1 = (None, fst (snd ?R1), snd (snd ?R1))" by (metis prod.collapse)
  have r2: "fst ?R2 = Some FileReadError" by (simp add: run_defs)
  then have R2: "?R2 = (Some FileReadError, fst (snd ?R2), snd (snd ?R2))" by (metis prod.collapse)
  from writeFormData_descriptors [of ?fs1 "[0xAB, 0x01]" "[]" example_request example_data
      None "fst (snd ?R1)" "snd (snd ?R1)"]
    writeFormData_descriptors [of ?fs2 "[0xAB, 0x01]" "[]" example_request example_data
      "Some FileReadError" "fst (snd ?R2)" "snd (snd ?R2)"]
    ok r1 R1 r2 R2
  show ?thesis by blast
qed

end
